theory Spec2Isabelle
  imports Complex_Main "HOL-Library.AList" "HOL-Library.List_Lexorder"
begin

section \<open>Python values\<close>

text \<open>
  A Python string is a list of code points. The alphabet of the model is the 256 code
  points of Latin-1 together with U+2014, the one further code point that the source
  mentions (in the needle of the \<open>replace\<close> call of \<open>_parse_dimensions_mm\<close>). On this
  alphabet \<open>str.lower\<close>, \<open>str.strip\<close> and the regular expression class \<open>\d\<close> are
  modelled exactly. Floats are modelled by the real numbers they stand for.
\<close>

datatype pychar = Ch char | EmDash

type_synonym pystr = "pychar list"

definition str :: "string \<Rightarrow> pystr" where
  "str s = map Ch s"

fun cp :: "pychar \<Rightarrow> nat" where
  "cp (Ch c) = of_char c"
| "cp EmDash = 8212"

datatype pyval =
    PNone
  | PBool bool
  | PInt int
  | PFloat real
  | PStr pystr
  | PStrList "pystr list"
  | PDict "(pystr \<times> pystr) list"

text \<open>\<open>isinstance(v, (int, float))\<close>: bool is a subclass of int.\<close>

fun num_val :: "pyval \<Rightarrow> real option" where
  "num_val (PBool b) = Some (if b then 1 else 0)"
| "num_val (PInt i) = Some (real_of_int i)"
| "num_val (PFloat r) = Some r"
| "num_val _ = None"

text \<open>Truth value of an object, as \<open>or\<close> and \<open>not\<close> test it.\<close>

fun truthy :: "pyval \<Rightarrow> bool" where
  "truthy PNone = False"
| "truthy (PBool b) = b"
| "truthy (PInt i) = (i \<noteq> 0)"
| "truthy (PFloat r) = (r \<noteq> 0)"
| "truthy (PStr s) = (s \<noteq> [])"
| "truthy (PStrList l) = (l \<noteq> [])"
| "truthy (PDict d) = (d \<noteq> [])"

definition py_or :: "pyval \<Rightarrow> pyval \<Rightarrow> pyval" where
  "py_or a b = (if truthy a then a else b)"

text \<open>\<open>d.get(k)\<close> on a dict of values: None when the key is missing.\<close>

definition dict_get :: "(pystr \<times> pyval) list \<Rightarrow> pystr \<Rightarrow> pyval" where
  "dict_get d k = (case map_of d k of None \<Rightarrow> PNone | Some v \<Rightarrow> v)"

definition has_key :: "(pystr \<times> 'v) list \<Rightarrow> pystr \<Rightarrow> bool" where
  "has_key d k = (k \<in> set (map fst d))"

definition opt_float :: "real option \<Rightarrow> pyval" where
  "opt_float r = (case r of None \<Rightarrow> PNone | Some x \<Rightarrow> PFloat x)"

section \<open>schema/models.py\<close>

record Evidence =
  snippet :: "pystr option"
  source_tool :: "pystr option"
  source_id_e :: "pystr option"

record AGVSpec =
  source_id :: pyval
  tool_trace :: pyval
  device_name :: pyval
  vendor :: pyval
  length_mm :: pyval
  width_mm :: pyval
  height_mm :: pyval
  payload_kg :: pyval
  speed_m_s :: pyval
  weight_kg :: pyval
  turning_radius_mm :: pyval
  lift_height_mm :: pyval
  p_evidence :: "(pystr \<times> Evidence) list"
  p_confidence :: "(pystr \<times> real) list"

text \<open>\<open>AGVSpec()\<close>: every field at its default.\<close>

definition AGVSpec_new :: AGVSpec where
  "AGVSpec_new = \<lparr> source_id = PNone, tool_trace = PStrList [],
     device_name = PNone, vendor = PNone, length_mm = PNone, width_mm = PNone,
     height_mm = PNone, payload_kg = PNone, speed_m_s = PNone, weight_kg = PNone,
     turning_radius_mm = PNone, lift_height_mm = PNone,
     p_evidence = [], p_confidence = [] \<rparr>"

text \<open>The names of the dataclass fields that do not start with an underscore.\<close>

definition canonical :: "pystr list" where
  "canonical = map str [''source_id'', ''tool_trace'', ''device_name'', ''vendor'',
     ''length_mm'', ''width_mm'', ''height_mm'', ''payload_kg'', ''speed_m_s'',
     ''weight_kg'', ''turning_radius_mm'', ''lift_height_mm'']"

definition setattr :: "AGVSpec \<Rightarrow> pystr \<Rightarrow> pyval \<Rightarrow> AGVSpec" where
  "setattr m field val =
    (if field = str ''source_id'' then m\<lparr>source_id := val\<rparr>
     else if field = str ''tool_trace'' then m\<lparr>tool_trace := val\<rparr>
     else if field = str ''device_name'' then m\<lparr>device_name := val\<rparr>
     else if field = str ''vendor'' then m\<lparr>vendor := val\<rparr>
     else if field = str ''length_mm'' then m\<lparr>length_mm := val\<rparr>
     else if field = str ''width_mm'' then m\<lparr>width_mm := val\<rparr>
     else if field = str ''height_mm'' then m\<lparr>height_mm := val\<rparr>
     else if field = str ''payload_kg'' then m\<lparr>payload_kg := val\<rparr>
     else if field = str ''speed_m_s'' then m\<lparr>speed_m_s := val\<rparr>
     else if field = str ''weight_kg'' then m\<lparr>weight_kg := val\<rparr>
     else if field = str ''turning_radius_mm'' then m\<lparr>turning_radius_mm := val\<rparr>
     else if field = str ''lift_height_mm'' then m\<lparr>lift_height_mm := val\<rparr>
     else m)"

text \<open>\<open>getattr(spec, f, None)\<close>.\<close>

definition getattr :: "AGVSpec \<Rightarrow> pystr \<Rightarrow> pyval" where
  "getattr m field =
    (if field = str ''source_id'' then source_id m
     else if field = str ''tool_trace'' then tool_trace m
     else if field = str ''device_name'' then device_name m
     else if field = str ''vendor'' then vendor m
     else if field = str ''length_mm'' then length_mm m
     else if field = str ''width_mm'' then width_mm m
     else if field = str ''height_mm'' then height_mm m
     else if field = str ''payload_kg'' then payload_kg m
     else if field = str ''speed_m_s'' then speed_m_s m
     else if field = str ''weight_kg'' then weight_kg m
     else if field = str ''turning_radius_mm'' then turning_radius_mm m
     else if field = str ''lift_height_mm'' then lift_height_mm m
     else PNone)"

text \<open>
  A candidate. Its three dicts are association lists in insertion order;
  \<open>d[k] = v\<close> is \<open>AList.update k v d\<close> and a lookup is \<open>map_of d k\<close>.
\<close>

record AGVSpecCandidate =
  source_id_c :: pystr
  tool :: pystr
  fields_c :: "(pystr \<times> pyval) list"
  confidence :: "(pystr \<times> real) list"
  evidence :: "(pystr \<times> Evidence) list"

fun flat_fields :: "(pystr \<times> pyval) list \<Rightarrow> (pystr \<times> pyval) list \<Rightarrow> (pystr \<times> pyval) list" where
  "flat_fields fs [] = fs"
| "flat_fields fs ((k, v) # d) =
    (if k = str ''device'' \<or> k = str ''device_name''
       then flat_fields (AList.update (str ''device_name'') v fs) d
     else if k = str ''vendor'' then flat_fields (AList.update (str ''vendor'') v fs) d
     else flat_fields (AList.update k v fs) d)"

definition from_flat_dict :: "(pystr \<times> pyval) list \<Rightarrow> pystr \<Rightarrow> pystr \<Rightarrow> AGVSpecCandidate" where
  "from_flat_dict d sid t =
    (let fs = flat_fields [] d in
     \<lparr> source_id_c = sid, tool = t, fields_c = fs,
       confidence = map (\<lambda>(k, v). (k, 0.65)) fs,
       evidence = map (\<lambda>(k, v). (k, \<lparr> snippet = None, source_tool = Some t,
                                       source_id_e = Some sid \<rparr>)) fs \<rparr>)"

text \<open>\<open>"; ".join(parts)\<close>\<close>

fun join :: "pystr \<Rightarrow> pystr list \<Rightarrow> pystr" where
  "join sep [] = []"
| "join sep [x] = x"
| "join sep (x # y # ys) = x @ sep @ join sep (y # ys)"

definition from_key_values :: "(pystr \<times> pystr) list \<Rightarrow> pystr \<Rightarrow> pystr \<Rightarrow> AGVSpecCandidate" where
  "from_key_values kv sid t =
    (let preview = join (str ''; '') (map (\<lambda>(k, v). k @ str '': '' @ v) (take 5 kv)) in
     \<lparr> source_id_c = sid, tool = t,
       fields_c = [(str ''_kv'', PDict kv)],
       confidence = [(str ''_kv'', 0.55)],
       evidence = [(str ''_kv'', \<lparr> snippet = Some preview, source_tool = Some t,
                                    source_id_e = Some sid \<rparr>)] \<rparr>)"

section \<open>agent/merge.py\<close>

type_synonym best = "(pystr \<times> (real \<times> pyval \<times> Evidence option)) list"

text \<open>The body of the inner loop (lines 25 to 34), for one item of \<open>cand.fields\<close>.\<close>

definition merge_item :: "AGVSpecCandidate \<Rightarrow> best \<Rightarrow> pystr \<times> pyval \<Rightarrow> best" where
  "merge_item cand b item =
    (let field = fst item; val = snd item in
     if field \<notin> set canonical then b
     else if val = PNone then b
     else
       let conf = (case map_of (confidence cand) field of None \<Rightarrow> 0 | Some x \<Rightarrow> x);
           ev = map_of (evidence cand) field
       in (case map_of b field of
             None \<Rightarrow> AList.update field (conf, val, ev) b
           | Some old \<Rightarrow> if conf > fst old then AList.update field (conf, val, ev) b else b))"

definition merge_cand :: "best \<Rightarrow> AGVSpecCandidate \<Rightarrow> best" where
  "merge_cand b cand = foldl (merge_item cand) b (fields_c cand)"

definition best_of :: "AGVSpecCandidate list \<Rightarrow> best" where
  "best_of candidates = foldl merge_cand [] candidates"

text \<open>The body of the second loop (lines 36 to 40).\<close>

definition store_best :: "AGVSpec \<Rightarrow> pystr \<times> (real \<times> pyval \<times> Evidence option) \<Rightarrow> AGVSpec" where
  "store_best merged entry =
    (let field = fst entry; conf = fst (snd entry); val = fst (snd (snd entry));
         ev = snd (snd (snd entry));
         m1 = setattr merged field val;
         m2 = (case ev of None \<Rightarrow> m1
               | Some e \<Rightarrow> m1\<lparr>p_evidence := AList.update field e (p_evidence m1)\<rparr>)
     in m2\<lparr>p_confidence := AList.update field conf (p_confidence m2)\<rparr>)"

definition merge_candidates :: "AGVSpecCandidate list \<Rightarrow> AGVSpec" where
  "merge_candidates candidates =
    (if candidates = [] then AGVSpec_new
     else
       let merged = foldl store_best AGVSpec_new (best_of candidates) in
       merged\<lparr> source_id := PStr (source_id_c (last candidates)),
               tool_trace := PStrList (map tool candidates) \<rparr>)"

section \<open>agent/scoring.py\<close>

definition CORE_FIELDS :: "pystr list" where
  "CORE_FIELDS = map str [''device_name'', ''length_mm'', ''width_mm'', ''height_mm'',
     ''payload_kg'', ''speed_m_s'']"

text \<open>
  The characters that \<open>str.strip()\<close> removes: \<open>str.isspace\<close> on the alphabet of the model
  (tab to carriage return, the four separators 0x1C to 0x1F, space, 0x85 and 0xA0).
\<close>

definition isspace :: "pychar \<Rightarrow> bool" where
  "isspace c = (let n = cp c in (9 \<le> n \<and> n \<le> 13) \<or> (28 \<le> n \<and> n \<le> 32) \<or> n = 133 \<or> n = 160)"

definition strip :: "pystr \<Rightarrow> pystr" where
  "strip s = rev (dropWhile isspace (rev (dropWhile isspace s)))"

text \<open>The loop body: does the value \<open>v\<close> of a core field count as filled?\<close>

definition counts_filled :: "pyval \<Rightarrow> bool" where
  "counts_filled v =
    (if v = PNone then False
     else if (case v of PStr s \<Rightarrow> strip s = [] | _ \<Rightarrow> False) then False
     else True)"

definition filled_count :: "AGVSpec \<Rightarrow> nat" where
  "filled_count spec =
     foldl (\<lambda>filled f. if counts_filled (getattr spec f) then filled + 1 else filled) 0 CORE_FIELDS"

definition completeness_score :: "AGVSpec \<Rightarrow> real" where
  "completeness_score spec = real (filled_count spec) / real (length CORE_FIELDS)"

section \<open>Strings and regular expressions used by schema/normalize.py\<close>

text \<open>
  \<open>str.lower\<close>: on the alphabet of the model the upper-case letters are A to Z and
  U+00C0 to U+00DE without the multiplication sign U+00D7; each is 32 below its
  lower-case letter.
\<close>

definition lower_ch :: "pychar \<Rightarrow> pychar" where
  "lower_ch c =
    (case c of
       EmDash \<Rightarrow> EmDash
     | Ch x \<Rightarrow>
         (let n = (of_char x :: nat) in
          if (65 \<le> n \<and> n \<le> 90) \<or> (192 \<le> n \<and> n \<le> 222 \<and> n \<noteq> 215)
          then Ch (char_of (n + 32)) else Ch x))"

definition lower :: "pystr \<Rightarrow> pystr" where
  "lower s = map lower_ch s"

text \<open>\<open>s.startswith(p)\<close> and \<open>needle in s\<close>.\<close>

fun starts_with :: "'a list \<Rightarrow> 'a list \<Rightarrow> bool" where
  "starts_with s [] = True"
| "starts_with [] (p # ps) = False"
| "starts_with (c # cs) (p # ps) = (c = p \<and> starts_with cs ps)"

fun contains :: "'a list \<Rightarrow> 'a list \<Rightarrow> bool" where
  "contains [] needle = (needle = [])"
| "contains (c # cs) needle = (starts_with (c # cs) needle \<or> contains cs needle)"

text \<open>
  \<open>s.replace(old, new)\<close> for a non-empty \<open>old\<close> (both calls of the source have one):
  occurrences are replaced from the left, without overlap.
\<close>

fun py_replace :: "'a list \<Rightarrow> 'a list \<Rightarrow> 'a list \<Rightarrow> 'a list" where
  "py_replace old new [] = []"
| "py_replace old new (c # cs) =
    (if starts_with (c # cs) old
       then new @ py_replace old new (drop (length old - 1) cs)
     else c # py_replace old new cs)"

definition isdigit :: "pychar \<Rightarrow> bool" where
  "isdigit c = (48 \<le> cp c \<and> cp c \<le> 57)"

definition issign :: "pychar \<Rightarrow> bool" where
  "issign c = (c = Ch CHR ''-'' \<or> c = Ch CHR ''+'')"

definition isdot :: "pychar \<Rightarrow> bool" where
  "isdot c = (c = Ch CHR ''.'')"

definition isdot_or_comma :: "pychar \<Rightarrow> bool" where
  "isdot_or_comma c = (c = Ch CHR ''.'' \<or> c = Ch CHR '','')"

text \<open>
  The optional group \<open>([.,]\d+)?\<close> at the start of \<open>s\<close>: a separator followed by at
  least one digit, with all the digits that follow; empty when the group does not match.
\<close>

definition opt_group :: "(pychar \<Rightarrow> bool) \<Rightarrow> pystr \<Rightarrow> pystr" where
  "opt_group issep s =
    (case s of
       c # d # r \<Rightarrow> if issep c \<and> isdigit d then c # takeWhile isdigit (d # r) else []
     | _ \<Rightarrow> [])"

text \<open>The match of \<open>\d+(SEP\d+)?\<close> at the start of \<open>s\<close>, which starts with a digit.\<close>

definition num_match :: "(pychar \<Rightarrow> bool) \<Rightarrow> pystr \<Rightarrow> pystr" where
  "num_match issep s =
    (let ds = takeWhile isdigit s in ds @ opt_group issep (drop (length ds) s))"

text \<open>
  \<open>re.findall(r"\d+(?:[.,]\d+)?", t)\<close>: the matches from left to right, each search
  starting where the previous match ended. A match starts at the first digit found, so the
  rest of the text after a match \<open>m\<close> that starts with \<open>c\<close> is
  \<open>drop (length m - 1) cs\<close>.
\<close>

fun findall_num :: "pystr \<Rightarrow> pystr list" where
  "findall_num [] = []"
| "findall_num (c # cs) =
    (if isdigit c
       then (let m = num_match isdot_or_comma (c # cs)
             in m # findall_num (drop (length m - 1) cs))
     else findall_num cs)"

text \<open>
  \<open>re.search(r"[-+]?\d+(\.\d+)?", s)\<close>: the leftmost match, which starts at a sign
  that a digit follows or at a digit.
\<close>

fun search_float :: "pystr \<Rightarrow> pystr option" where
  "search_float [] = None"
| "search_float (c # cs) =
    (if issign c \<and> (case cs of d # _ \<Rightarrow> isdigit d | [] \<Rightarrow> False)
       then Some (c # num_match isdot cs)
     else if isdigit c then Some (num_match isdot (c # cs))
     else search_float cs)"

definition digits_val :: "pystr \<Rightarrow> nat" where
  "digits_val ds = foldl (\<lambda>a d. 10 * a + (cp d - 48)) 0 ds"

text \<open>\<open>float(tok)\<close> for a token \<open>[-+]?\d+(\.\d+)?\<close>.\<close>

definition float_of :: "pystr \<Rightarrow> real" where
  "float_of tok =
    (let neg = (case tok of c # _ \<Rightarrow> c = Ch CHR ''-'' | [] \<Rightarrow> False);
         body = (case tok of c # r \<Rightarrow> if issign c then r else tok | [] \<Rightarrow> []);
         ip = takeWhile isdigit body;
         fp = drop (length ip + 1) body;
         m = real (digits_val ip) + real (digits_val fp) / 10 ^ length fp
     in if neg then - m else m)"

section \<open>schema/normalize.py\<close>

text \<open>
  \<open>_to_float\<close>; every call passes a string, so the guard for None and the conversion
  \<open>str(s)\<close> do nothing.
\<close>

definition to_float :: "pystr \<Rightarrow> real option" where
  "to_float s =
    (let s1 = py_replace (str '','') (str ''.'') s in
     case search_float s1 of None \<Rightarrow> None | Some tok \<Rightarrow> Some (float_of tok))"

text \<open>The needle of the \<open>replace\<close> call in \<open>_parse_dimensions_mm\<close>: U+00C3, U+2014.\<close>

definition times_needle :: pystr where
  "times_needle = [Ch (char_of (195 :: nat)), EmDash]"

definition parse_dimensions_mm :: "pystr \<Rightarrow> real option \<times> real option \<times> real option" where
  "parse_dimensions_mm text =
    (let t = py_replace times_needle (str ''x'') (lower text);
         nums = findall_num t
     in if length nums \<ge> 3
          then (to_float (nums ! 0), to_float (nums ! 1), to_float (nums ! 2))
        else (None, None, None))"

text \<open>The body of the loop over \<open>kv.items()\<close> (lines 42 to 64).\<close>

definition kv_step :: "(pystr \<times> pyval) list \<Rightarrow> pystr \<times> pystr \<Rightarrow> (pystr \<times> pyval) list" where
  "kv_step fs item =
    (let k = fst item; v = snd item; kl = lower k;
         f1 = (if contains kl (str ''abmess'') \<or> contains kl (str ''abmasse'')
                  \<or> contains kl (str ''dimensions'')
               then (case parse_dimensions_mm v of
                       (l, w, h) \<Rightarrow>
                         AList.update (str ''height_mm'') (opt_float h)
                           (AList.update (str ''width_mm'') (opt_float w)
                             (AList.update (str ''length_mm'') (opt_float l) fs)))
               else fs);
         f2 = (if contains kl (str ''trag'') \<or> contains kl (str ''payload'')
                  \<or> contains kl (str ''last'')
               then AList.update (str ''payload_kg'') (opt_float (to_float v)) f1 else f1);
         f3 = (if contains kl (str ''geschwind'') \<or> contains kl (str ''speed'')
               then AList.update (str ''speed_m_s'') (opt_float (to_float v)) f2 else f2);
         f4 = (if contains kl (str ''eigengewicht'') \<or> contains kl (str ''weight'')
               then AList.update (str ''weight_kg'') (opt_float (to_float v)) f3 else f3);
         f5 = (if contains kl (str ''drehkreis'') \<or> contains kl (str ''turn'')
               then AList.update (str ''turning_radius_mm'') (opt_float (to_float v)) f4 else f4);
         f6 = (if contains kl (str ''hubh'') \<or> contains kl (str ''lift'')
               then AList.update (str ''lift_height_mm'') (opt_float (to_float v)) f5 else f5)
     in f6)"

text \<open>
  One of the four fallbacks of lines 73 to 83: when \<open>fields.get(raw)\<close> is a string and
  \<open>fields.get(target)\<close> is None, the target is set from the raw field.
\<close>

definition fill_from :: "pystr \<Rightarrow> pystr \<Rightarrow> (pystr \<times> pyval) list \<Rightarrow> (pystr \<times> pyval) list" where
  "fill_from raw target fs =
    (case dict_get fs raw of
       PStr s \<Rightarrow> if dict_get fs target = PNone
                 then AList.update target (opt_float (to_float s)) fs else fs
     | _ \<Rightarrow> fs)"

definition normalize_candidate :: "AGVSpecCandidate \<Rightarrow> AGVSpecCandidate" where
  "normalize_candidate c =
    (let fields0 = fields_c c;
         fields1 = (case dict_get fields0 (str ''_kv'') of
                      PDict kv \<Rightarrow> foldl kv_step fields0 kv
                    | _ \<Rightarrow> fields0);
         fields2 = (case (if has_key fields1 (str ''abmasse'')
                          then dict_get fields1 (str ''abmasse'') else PNone) of
                      PStr s \<Rightarrow>
                        (case parse_dimensions_mm s of
                           (l, w, h) \<Rightarrow>
                             (let g1 = AList.update (str ''length_mm'')
                                         (py_or (dict_get fields1 (str ''length_mm'')) (opt_float l)) fields1;
                                  g2 = AList.update (str ''width_mm'')
                                         (py_or (dict_get g1 (str ''width_mm'')) (opt_float w)) g1
                              in AList.update (str ''height_mm'')
                                   (py_or (dict_get g2 (str ''height_mm'')) (opt_float h)) g2))
                    | _ \<Rightarrow> fields1);
         fields3 = fill_from (str ''max_last'') (str ''payload_kg'') fields2;
         fields4 = fill_from (str ''eigengewicht'') (str ''weight_kg'') fields3;
         fields5 = fill_from (str ''drehkreis'') (str ''turning_radius_mm'') fields4;
         fields6 = fill_from (str ''max_hubhoehe'') (str ''lift_height_mm'') fields5;
         fields7 = (if \<not> has_key fields6 (str ''device_name'') \<and> has_key fields6 (str ''device'')
                    then AList.update (str ''device_name'') (dict_get fields6 (str ''device'')) fields6
                    else fields6);
         fields8 = (if \<not> has_key fields7 (str ''vendor'') \<and> has_key (fields_c c) (str ''vendor'')
                    then AList.update (str ''vendor'') (dict_get (fields_c c) (str ''vendor'')) fields7
                    else fields7)
     in c\<lparr>fields_c := fields8\<rparr>)"

section \<open>schema/validate.py\<close>

definition penalize :: "(pystr \<times> real) list \<Rightarrow> pystr \<Rightarrow> (pystr \<times> real) list" where
  "penalize conf key =
    (case map_of conf key of None \<Rightarrow> conf | Some x \<Rightarrow> AList.update key (x * 0.5) conf)"

text \<open>
  The test of lines 18 and 19 (and 24 and 25): the value is an int or a float, and it is
  at most 0 or above the upper limit.
\<close>

definition implausible :: "pyval \<Rightarrow> real \<Rightarrow> bool" where
  "implausible v hi = (case num_val v of None \<Rightarrow> False | Some x \<Rightarrow> x \<le> 0 \<or> x > hi)"

definition validate_candidate :: "AGVSpecCandidate \<Rightarrow> AGVSpecCandidate" where
  "validate_candidate c =
    (let f = fields_c c;
         conf1 = (if implausible (dict_get f (str ''payload_kg'')) 100000
                  then penalize (confidence c) (str ''payload_kg'') else confidence c);
         conf2 = foldl (\<lambda>cf dim. if implausible (dict_get f dim) 50000 then penalize cf dim else cf)
                   conf1 (map str [''length_mm'', ''width_mm'', ''height_mm''])
     in c\<lparr>confidence := conf2\<rparr>)"

section \<open>agent/orchestrator.py\<close>

datatype error = ValueError pystr | FileNotFoundError pystr

definition looks_like_agilox :: "pystr \<Rightarrow> bool" where
  "looks_like_agilox text =
    (let t = lower text in
     contains t (str ''agilox'') \<or> contains t (str ''nfk'') \<or> contains t (str ''drehkreis'')
       \<or> contains t (str ''eigengewicht''))"

definition tool_plan_for_text :: "pystr \<Rightarrow> pystr list" where
  "tool_plan_for_text text =
    (if looks_like_agilox text then map str [''regex_agilox'', ''key_value'', ''llm'']
     else map str [''key_value'', ''regex_generic'', ''llm''])"

text \<open>
  The slice \<open>xs[:n]\<close> of Python: a negative \<open>n\<close> counts from the end of the list.
\<close>

definition slice_to :: "'a list \<Rightarrow> int \<Rightarrow> 'a list" where
  "slice_to xs n = (if n \<ge> 0 then take (nat n) xs else take (nat (int (length xs) + n)) xs)"

text \<open>Lines 121 to 124: the tools that the loop iterates over.\<close>

definition planned_tools :: "pystr \<Rightarrow> pystr \<Rightarrow> int \<Rightarrow> pystr list" where
  "planned_tools text llm_backend max_steps =
    (let tools = tool_plan_for_text text;
         tools1 = (if llm_backend = str ''none'' then filter (\<lambda>t. t \<noteq> str ''llm'') tools else tools)
     in slice_to tools1 max_steps)"

text \<open>
  The extractors are external to the orchestration: the model takes them as parameters.
  \<open>extract_agilox_from_text\<close> gives the rows of its data frame as dicts.
\<close>

record extractors =
  extract_agilox_from_text :: "pystr \<Rightarrow> (pystr \<times> pyval) list list"
  extract_features_from_text :: "pystr \<Rightarrow> pystr list \<Rightarrow> (pystr \<times> pyval) list"
  extract_key_values_from_text :: "pystr \<Rightarrow> (pystr \<times> pystr) list"
  extract_with_llm :: "pystr \<Rightarrow> pystr \<Rightarrow> (pystr \<times> pyval) list"

definition run_tool ::
  "extractors \<Rightarrow> pystr \<Rightarrow> pystr \<Rightarrow> pystr \<Rightarrow> pystr \<Rightarrow> error + AGVSpecCandidate list" where
  "run_tool X t text sid llm_backend =
    (if t = str ''regex_agilox''
       then Inr (map (\<lambda>row. from_flat_dict row sid t) (extract_agilox_from_text X text))
     else if t = str ''regex_generic''
       then Inr [from_flat_dict
                   (extract_features_from_text X text
                      (map str [''dimensions'', ''payload'', ''speed'', ''weight'', ''turning radius'']))
                   sid t]
     else if t = str ''key_value''
       then Inr [from_key_values (extract_key_values_from_text X text) sid t]
     else if t = str ''llm''
       then Inr [from_flat_dict (extract_with_llm X text llm_backend) sid t]
     else Inl (ValueError (str ''Unknown tool: '' @ t)))"

text \<open>
  The state of the loop over the tools of one document: the cumulative candidate list and
  the steps logged so far (line 129 logs each step before its tool runs).
\<close>

record loop_state =
  candidates :: "AGVSpecCandidate list"
  steps :: "pystr list"

fun run_steps ::
  "extractors \<Rightarrow> pystr \<Rightarrow> pystr \<Rightarrow> pystr \<Rightarrow> real \<Rightarrow> pystr list \<Rightarrow> loop_state
     \<Rightarrow> error + loop_state" where
  "run_steps X text sid llm_backend min_completeness [] st = Inr st"
| "run_steps X text sid llm_backend min_completeness (t # rest) st =
    (case run_tool X t text sid llm_backend of
       Inl e \<Rightarrow> Inl e
     | Inr new_cands \<Rightarrow>
         (let st1 = \<lparr> candidates = candidates st
                         @ map (\<lambda>c. validate_candidate (normalize_candidate c)) new_cands,
                      steps = steps st @ [t] \<rparr>;
              score = completeness_score (merge_candidates (candidates st1))
          in if score \<ge> min_completeness then Inr st1
             else run_steps X text sid llm_backend min_completeness rest st1))"

text \<open>
  Lines 121 to 145 for one document, given its text and identifier: the final merge,
  together with the steps that ran.
\<close>

record doc_result =
  final :: AGVSpec
  steps_run :: "pystr list"
  cumulative :: "AGVSpecCandidate list"

definition process_document ::
  "extractors \<Rightarrow> pystr \<Rightarrow> pystr \<Rightarrow> real \<Rightarrow> int \<Rightarrow> pystr \<Rightarrow> error + doc_result" where
  "process_document X text sid min_completeness max_steps llm_backend =
    (let tools = planned_tools text llm_backend max_steps in
     case run_steps X text sid llm_backend min_completeness tools \<lparr> candidates = [], steps = [] \<rparr> of
       Inl e \<Rightarrow> Inl e
     | Inr st \<Rightarrow> Inr \<lparr> final = merge_candidates (candidates st), steps_run = steps st,
                       cumulative = candidates st \<rparr>)"

section \<open>utils/io.py\<close>

text \<open>
  The file system as \<open>iter_inputs\<close> sees it: a path is a regular file, a directory
  with the names of its entries (in the order the system lists them), something else, or
  missing.
\<close>

datatype node = File | Dir "pystr list" | Special

type_synonym filesystem = "pystr \<Rightarrow> node option"

definition ends_with :: "'a list \<Rightarrow> 'a list \<Rightarrow> bool" where
  "ends_with s suffix = starts_with (rev s) (rev suffix)"

text \<open>\<open>p.glob("*.pdf")\<close>: the entries whose name ends with the suffix.\<close>

definition glob_suffix :: "pystr list \<Rightarrow> pystr \<Rightarrow> pystr list" where
  "glob_suffix names suffix = filter (\<lambda>n. ends_with n suffix) names"

text \<open>
  \<open>Path.stem\<close>: the name without its last suffix; a dot at the start or at the end of
  the name does not start a suffix.
\<close>

definition stem :: "pystr \<Rightarrow> pystr" where
  "stem name =
    (if Ch CHR ''.'' \<notin> set name then name
     else
       (let i = length name - length (takeWhile (\<lambda>c. c \<noteq> Ch CHR ''.'') (rev name)) - 1
        in if 0 < i \<and> i < length name - 1 then take i name else name))"

text \<open>\<open>sorted\<close> on paths of one directory: by name, code point by code point.\<close>

definition sorted_names :: "pystr list \<Rightarrow> pystr list" where
  "sorted_names names = sort_key (map cp) names"

definition joinpath :: "pystr \<Rightarrow> pystr \<Rightarrow> pystr" where
  "joinpath p name = p @ str ''/'' @ name"

definition iter_inputs :: "filesystem \<Rightarrow> pystr \<Rightarrow> error + pystr list" where
  "iter_inputs fs p =
    (case fs p of
       Some File \<Rightarrow> Inr [p]
     | Some (Dir names) \<Rightarrow>
         (let pdfs = sorted_names (glob_suffix names (str ''.pdf''));
              pdf_stems = map stem pdfs;
              txts = filter (\<lambda>f. stem f \<notin> set pdf_stems)
                       (sorted_names (glob_suffix names (str ''.txt'')))
          in Inr (map (joinpath p) (pdfs @ txts)))
     | _ \<Rightarrow> Inl (FileNotFoundError p))"

section \<open>Notions used to state the properties\<close>

text \<open>
  A value is non-blank when it is not a string, or is a string with a character that
  \<open>strip\<close> keeps.
\<close>

fun non_blank :: "pyval \<Rightarrow> bool" where
  "non_blank (PStr s) = (\<exists>ch\<in>set s. \<not> isspace ch)"
| "non_blank _ = True"

text \<open>The values of the six core fields of a record.\<close>

definition core_values :: "AGVSpec \<Rightarrow> pyval list" where
  "core_values spec = [device_name spec, length_mm spec, width_mm spec, height_mm spec,
     payload_kg spec, speed_m_s spec]"

text \<open>A value is a number that lies outside the interval \<open>(0, hi]\<close>.\<close>

definition outside_range :: "pyval \<Rightarrow> real \<Rightarrow> bool" where
  "outside_range v hi = (case num_val v of None \<Rightarrow> False | Some x \<Rightarrow> \<not> (0 < x \<and> x \<le> hi))"

text \<open>
  The order of section 4.2 of the specification: truncate the plan to the step budget,
  then drop the model-assisted tool when no backend is configured.
\<close>

definition truncate_then_drop :: "pystr \<Rightarrow> pystr \<Rightarrow> int \<Rightarrow> pystr list" where
  "truncate_then_drop text llm_backend max_steps =
    (let tools = slice_to (tool_plan_for_text text) max_steps
     in if llm_backend = str ''none'' then filter (\<lambda>t. t \<noteq> str ''llm'') tools else tools)"

text \<open>A record with two filled core fields and a blank payload.\<close>

definition spec_example :: AGVSpec where
  "spec_example = AGVSpec_new\<lparr> device_name := PStr (str ''ONE''), length_mm := PFloat 1500,
     payload_kg := PStr (str '' '') \<rparr>"

text \<open>
  The confidence with which a candidate proposes a field: its entry in the candidate's
  confidence mapping, 0.0 when there is none.
\<close>

definition conf_of :: "AGVSpecCandidate \<Rightarrow> pystr \<Rightarrow> real" where
  "conf_of cand f = (case map_of (confidence cand) f of None \<Rightarrow> 0 | Some x \<Rightarrow> x)"

text \<open>
  The value that a candidate supplies under a name that is not None, if it has one. (A
  dict has at most one item under a name.)
\<close>

definition supplied :: "AGVSpecCandidate \<Rightarrow> pystr \<Rightarrow> pyval option" where
  "supplied cand f =
    (case filter (\<lambda>item. fst item = f \<and> snd item \<noteq> PNone) (fields_c cand) of
       [] \<Rightarrow> None
     | item # _ \<Rightarrow> Some (snd item))"

definition proposes :: "AGVSpecCandidate \<Rightarrow> pystr \<Rightarrow> bool" where
  "proposes cand f = (supplied cand f \<noteq> None)"

text \<open>The canonical fields that hold extracted data: all but the two that merge sets itself.\<close>

definition data_fields :: "pystr list" where
  "data_fields = map str [''device_name'', ''vendor'', ''length_mm'', ''width_mm'',
     ''height_mm'', ''payload_kg'', ''speed_m_s'', ''weight_kg'', ''turning_radius_mm'',
     ''lift_height_mm'']"

text \<open>
  The proposals for a field in merge order, as triples of confidence, value and
  evidence, and the update of the best triple by one proposal.
\<close>

definition proposals_of :: "AGVSpecCandidate \<Rightarrow> pystr \<Rightarrow> (real \<times> pyval \<times> Evidence option) list" where
  "proposals_of cand f =
     map (\<lambda>item. (conf_of cand f, snd item, map_of (evidence cand) f))
       (filter (\<lambda>item. fst item = f \<and> snd item \<noteq> PNone) (fields_c cand))"

definition proposals :: "AGVSpecCandidate list \<Rightarrow> pystr \<Rightarrow> (real \<times> pyval \<times> Evidence option) list" where
  "proposals cs f = concat (map (\<lambda>c. proposals_of c f) cs)"

fun pick :: "(real \<times> 'a) option \<Rightarrow> real \<times> 'a \<Rightarrow> (real \<times> 'a) option" where
  "pick None p = Some p"
| "pick (Some old) p = (if fst p > fst old then Some p else Some old)"

text \<open>Example candidates: three that propose a payload and one that proposes nothing.\<close>

definition cand_a :: AGVSpecCandidate where
  "cand_a = \<lparr> source_id_c = str ''doc.pdf'', tool = str ''regex_agilox'',
     fields_c = [(str ''payload_kg'', PFloat 250)],
     confidence = [(str ''payload_kg'', 0.65)], evidence = [] \<rparr>"

definition cand_b :: AGVSpecCandidate where
  "cand_b = \<lparr> source_id_c = str ''doc.pdf'', tool = str ''llm'',
     fields_c = [(str ''payload_kg'', PFloat 300)],
     confidence = [(str ''payload_kg'', 0.65)], evidence = [] \<rparr>"

definition cand_c :: AGVSpecCandidate where
  "cand_c = \<lparr> source_id_c = str ''doc.pdf'', tool = str ''key_value'',
     fields_c = [(str ''payload_kg'', PFloat 7)],
     confidence = [(str ''payload_kg'', 0.3)], evidence = [] \<rparr>"

definition cand_empty :: AGVSpecCandidate where
  "cand_empty = \<lparr> source_id_c = str ''doc.pdf'', tool = str ''regex_generic'',
     fields_c = [], confidence = [], evidence = [] \<rparr>"

text \<open>A candidate whose payload is above the plausible range.\<close>

definition cand_heavy :: AGVSpecCandidate where
  "cand_heavy = \<lparr> source_id_c = str ''doc.pdf'', tool = str ''llm'',
     fields_c = [(str ''payload_kg'', PFloat 100000.01), (str ''length_mm'', PInt 1500)],
     confidence = [(str ''payload_kg'', 0.65), (str ''length_mm'', 0.65)], evidence = [] \<rparr>"

text \<open>A raw key-value table with a payload.\<close>

definition kv_example :: "(pystr \<times> pystr) list" where
  "kv_example = [(str ''Payload'', str ''500 kg'')]"

text \<open>
  The candidates that one tool step appends: the candidates of the tool, normalised and
  validated. The cumulative list after the first \<open>k\<close> tools of a plan, and the
  completeness score of its merge.
\<close>

definition step_candidates ::
  "extractors \<Rightarrow> pystr \<Rightarrow> pystr \<Rightarrow> pystr \<Rightarrow> pystr \<Rightarrow> AGVSpecCandidate list" where
  "step_candidates X t text sid llm_backend =
    (case run_tool X t text sid llm_backend of
       Inl e \<Rightarrow> []
     | Inr new_cands \<Rightarrow> map (\<lambda>c. validate_candidate (normalize_candidate c)) new_cands)"

definition cumulative_after ::
  "extractors \<Rightarrow> pystr \<Rightarrow> pystr \<Rightarrow> pystr \<Rightarrow> pystr list \<Rightarrow> nat \<Rightarrow> AGVSpecCandidate list" where
  "cumulative_after X text sid llm_backend plan k =
     concat (map (\<lambda>t. step_candidates X t text sid llm_backend) (take k plan))"

definition score_after ::
  "extractors \<Rightarrow> pystr \<Rightarrow> pystr \<Rightarrow> pystr \<Rightarrow> pystr list \<Rightarrow> nat \<Rightarrow> real" where
  "score_after X text sid llm_backend plan k =
     completeness_score (merge_candidates (cumulative_after X text sid llm_backend plan k))"

text \<open>The tools that \<open>_run_tool\<close> knows.\<close>

definition known_tools :: "pystr list" where
  "known_tools = map str [''regex_agilox'', ''regex_generic'', ''key_value'', ''llm'']"

text \<open>
  Extractors that find nothing: one row for the whole text with the vendor, the section
  name and NA under every pattern (what \<open>extract_agilox_from_text\<close> gives when no
  anchor and no pattern matches), None for every wanted feature, no key-value pair, an
  empty answer of the model.
\<close>

definition extractors_nothing :: extractors where
  "extractors_nothing = \<lparr>
     extract_agilox_from_text = (\<lambda>text.
       [[(str ''vendor'', PStr (str ''AGILOX'')),
         (str ''device'', PStr (str ''AGILOX (full_text)'')),
         (str ''abmasse'', PStr (str ''NA'')),
         (str ''eigengewicht'', PStr (str ''NA'')),
         (str ''max_last'', PStr (str ''NA'')),
         (str ''max_hubhoehe'', PStr (str ''NA'')),
         (str ''max_stationshoehe_epal'', PStr (str ''NA'')),
         (str ''drehkreis'', PStr (str ''NA'')),
         (str ''min_gangbreite'', PStr (str ''NA'')),
         (str ''min_durchfahrtsbreite'', PStr (str ''NA'')),
         (str ''ladezeit'', PStr (str ''NA''))]]),
     extract_features_from_text = (\<lambda>text features. map (\<lambda>w. (w, PNone)) features),
     extract_key_values_from_text = (\<lambda>text. []),
     extract_with_llm = (\<lambda>text backend. []) \<rparr>"

text \<open>A directory with two PDFs and two text files, one of which shares a stem with a PDF.\<close>

definition fs_example :: filesystem where
  "fs_example q =
    (if q = str ''docs''
     then Some (Dir [str ''b.pdf'', str ''a.txt'', str ''a.pdf'', str ''c.txt'', str ''notes.md''])
     else if q = str ''one.pdf'' then Some File
     else None)"

text \<open>
  A raw key names the dimensions when its lower-case form contains one of the three
  fragments that line 44 of \<open>normalize.py\<close> tests.
\<close>

definition dimension_key :: "pystr \<Rightarrow> bool" where
  "dimension_key k =
    (contains (lower k) (str ''abmess'') \<or> contains (lower k) (str ''abmasse'')
      \<or> contains (lower k) (str ''dimensions''))"

text \<open>
  The numbers of a text, from left to right: each is a run of digits, with a decimal part
  after a dot or a comma when digits follow it, and stands for its decimal value.
\<close>

definition token_value :: "pystr \<Rightarrow> real" where
  "token_value tok =
    (let ip = takeWhile isdigit tok; fp = drop (length ip + 1) tok
     in real (digits_val ip) + real (digits_val fp) / 10 ^ length fp)"

definition numbers_in :: "pystr \<Rightarrow> real list" where
  "numbers_in v = map token_value (findall_num v)"

text \<open>The raw key-value table of the scenario of the specification.\<close>

definition kv_scenario :: "(pystr \<times> pystr) list" where
  "kv_scenario =
    [(str ''Abmessungen'', str ''1500 x 800 x 1200 mm''),
     (str ''Tragf'' @ [Ch (char_of (228 :: nat))] @ str ''higkeit'', str ''500 kg'')]"

section \<open>Properties\<close>

subsection \<open>Completeness score\<close>

lemma strip_empty_iff: "strip s = [] \<longleftrightarrow> (\<forall>ch\<in>set s. isspace ch)"
proof -
  have "dropWhile isspace s = [] \<longleftrightarrow> (\<forall>ch\<in>set s. isspace ch)"
    by (simp add: dropWhile_eq_Nil_conv)
  moreover have "(\<forall>ch\<in>set (dropWhile isspace s). isspace ch) \<longleftrightarrow> dropWhile isspace s = []"
  proof
    assume a: "\<forall>ch\<in>set (dropWhile isspace s). isspace ch"
    show "dropWhile isspace s = []"
    proof (rule ccontr)
      assume n: "dropWhile isspace s \<noteq> []"
      then have "\<not> isspace (hd (dropWhile isspace s))" by (rule hd_dropWhile)
      moreover have "hd (dropWhile isspace s) \<in> set (dropWhile isspace s)" using n by simp
      ultimately show False using a by blast
    qed
  next
    assume e: "dropWhile isspace s = []"
    show "\<forall>ch\<in>set (dropWhile isspace s). isspace ch" unfolding e by simp
  qed
  ultimately show ?thesis
    by (simp add: strip_def dropWhile_eq_Nil_conv)
qed

lemma counts_filled_iff: "counts_filled v \<longleftrightarrow> v \<noteq> PNone \<and> non_blank v"
  by (cases v) (auto simp: counts_filled_def strip_empty_iff)

lemma filled_count_eq: "filled_count spec = length (filter counts_filled (core_values spec))"
  by (simp add: filled_count_def CORE_FIELDS_def getattr_def str_def core_values_def)

lemma filled_count_le: "filled_count spec \<le> 6"
  unfolding filled_count_eq
  by (rule order_trans [OF length_filter_le]) (simp add: core_values_def)

text \<open>
  C5. The completeness score is the number of the six core fields (device name, length,
  width, height, payload, speed) that are not None and, when they are strings, not blank
  after stripping, divided by six. It lies between 0 and 1, and two records with the same
  six core values have the same score, whatever their other fields hold.
\<close>

theorem completeness_score_core_fraction:
  "completeness_score spec
     = real (length (filter (\<lambda>v. v \<noteq> PNone \<and> non_blank v) (core_values spec))) / 6
   \<and> 0 \<le> completeness_score spec \<and> completeness_score spec \<le> 1
   \<and> (core_values spec' = core_values spec \<longrightarrow> completeness_score spec' = completeness_score spec)"
proof -
  have sc: "\<And>s. completeness_score s = real (length (filter counts_filled (core_values s))) / 6"
    by (simp add: completeness_score_def filled_count_eq CORE_FIELDS_def)
  have "(\<lambda>v. v \<noteq> PNone \<and> non_blank v) = counts_filled"
    by (rule ext) (simp add: counts_filled_iff)
  moreover have "completeness_score spec \<le> 1"
    using filled_count_le [of spec] by (simp add: completeness_score_def CORE_FIELDS_def)
  moreover have "0 \<le> completeness_score spec"
    by (simp add: completeness_score_def)
  ultimately show ?thesis by (simp add: sc)
qed

theorem completeness_score_core_fraction_witness:
  "core_values (spec_example\<lparr>vendor := PStr (str ''AGILOX''), weight_kg := PFloat 7\<rparr>) = core_values spec_example
   \<and> completeness_score (spec_example\<lparr>vendor := PStr (str ''AGILOX''), weight_kg := PFloat 7\<rparr>)
       = completeness_score spec_example
   \<and> completeness_score spec_example = 2 / 6"
  using completeness_score_core_fraction
    [of spec_example "spec_example\<lparr>vendor := PStr (str ''AGILOX''), weight_kg := PFloat 7\<rparr>"]
  by (simp add: core_values_def spec_example_def AGVSpec_new_def str_def isspace_def)

subsection \<open>Tool plan\<close>

lemma slice_to_nonneg: "0 \<le> n \<Longrightarrow> slice_to xs n = take (nat n) xs"
  by (simp add: slice_to_def)

text \<open>
  C8, amended. For a step budget that is not negative, or with a backend configured, the
  tools that the loop iterates over (the plan without the model-assisted tool when the
  backend is none, then cut to the budget) are those of the order of the specification
  (cut first, then drop). Every plan ends with the model-assisted tool and holds it
  nowhere else.
\<close>

theorem planned_tools_order:
  "(0 \<le> max_steps \<or> llm_backend \<noteq> str ''none'' \<longrightarrow>
      planned_tools text llm_backend max_steps = truncate_then_drop text llm_backend max_steps)
   \<and> last (tool_plan_for_text text) = str ''llm''
   \<and> str ''llm'' \<notin> set (butlast (tool_plan_for_text text))"
proof -
  have "planned_tools text llm_backend max_steps = truncate_then_drop text llm_backend max_steps"
    if "0 \<le> max_steps"
  proof -
    obtain n where n: "nat max_steps = n" by simp
    consider "n = 0" | "n = 1" | "n = 2" | "n \<ge> 3" by linarith
    then show ?thesis
      using that n
      by cases (auto simp: planned_tools_def truncate_then_drop_def tool_plan_for_text_def
          slice_to_nonneg str_def Let_def numeral_2_eq_2)
  qed
  moreover have "planned_tools text llm_backend max_steps
      = truncate_then_drop text llm_backend max_steps" if "llm_backend \<noteq> str ''none''"
    using that by (simp add: planned_tools_def truncate_then_drop_def)
  moreover have "last (tool_plan_for_text text) = str ''llm''"
    by (simp add: tool_plan_for_text_def)
  moreover have "str ''llm'' \<notin> set (butlast (tool_plan_for_text text))"
    by (simp add: tool_plan_for_text_def str_def)
  ultimately show ?thesis by blast
qed

theorem planned_tools_order_witness:
  "(0::int) \<le> 2
   \<and> planned_tools (str ''AGILOX ONE'') (str ''none'') 2 = map str [''regex_agilox'', ''key_value'']
   \<and> truncate_then_drop (str ''AGILOX ONE'') (str ''none'') 2 = map str [''regex_agilox'', ''key_value'']"
proof -
  have e: "truncate_then_drop (str ''AGILOX ONE'') (str ''none'') 2
             = map str [''regex_agilox'', ''key_value'']"
    by code_simp
  have h: "(0::int) \<le> 2" by simp
  with planned_tools_order [of 2 "str ''none''" "str ''AGILOX ONE''"]
  have "planned_tools (str ''AGILOX ONE'') (str ''none'') 2
          = truncate_then_drop (str ''AGILOX ONE'') (str ''none'') 2"
    by blast
  with e h show ?thesis by simp
qed

text \<open>
  With the budget -1 and no backend the two orders differ: the slice drops the last tool
  of the list it is applied to.
\<close>

theorem planned_tools_order_counterexample:
  "planned_tools (str ''speed: 2'') (str ''none'') (-1) = [str ''key_value'']
   \<and> truncate_then_drop (str ''speed: 2'') (str ''none'') (-1)
       = [str ''key_value'', str ''regex_generic'']"
  by code_simp

subsection \<open>Merge: the best triple of a field\<close>

lemma map_of_merge_item:
  "map_of (merge_item cand b item) f =
     (if fst item = f \<and> f \<in> set canonical \<and> snd item \<noteq> PNone
      then pick (map_of b f) (conf_of cand f, snd item, map_of (evidence cand) f)
      else map_of b f)"
  by (cases "map_of b (fst item)")
     (auto simp: merge_item_def Let_def conf_of_def update_conv' split: option.splits)

lemma map_of_merge_items:
  "f \<in> set canonical \<Longrightarrow>
   map_of (foldl (merge_item cand) b items) f =
   foldl pick (map_of b f)
     (map (\<lambda>item. (conf_of cand f, snd item, map_of (evidence cand) f))
        (filter (\<lambda>item. fst item = f \<and> snd item \<noteq> PNone) items))"
  by (induction items arbitrary: b) (simp_all add: map_of_merge_item)

lemma map_of_merge_cand:
  "f \<in> set canonical \<Longrightarrow>
   map_of (merge_cand b cand) f = foldl pick (map_of b f) (proposals_of cand f)"
  by (simp add: merge_cand_def proposals_of_def map_of_merge_items)

lemma map_of_foldl_merge_cand:
  "f \<in> set canonical \<Longrightarrow>
   map_of (foldl merge_cand b cs) f = foldl pick (map_of b f) (proposals cs f)"
  by (induction cs arbitrary: b) (simp_all add: proposals_def map_of_merge_cand)

lemma map_of_best_of:
  "f \<in> set canonical \<Longrightarrow> map_of (best_of cs) f = foldl pick None (proposals cs f)"
  by (simp add: best_of_def map_of_foldl_merge_cand)

lemma map_of_merge_item_noncanonical:
  "f \<notin> set canonical \<Longrightarrow> map_of (merge_item cand b item) f = map_of b f"
  by (simp add: map_of_merge_item)

lemma pick_keeps: "\<forall>q\<in>set post. fst q \<le> fst r \<Longrightarrow> foldl pick (Some r) post = Some r"
  by (induction post) auto

lemma pick_below:
  "\<forall>q\<in>set pre. fst q < x \<Longrightarrow> (case a of None \<Rightarrow> True | Some y \<Rightarrow> fst y < x) \<Longrightarrow>
   (case foldl pick a pre of None \<Rightarrow> True | Some y \<Rightarrow> fst y < x)"
proof (induction pre arbitrary: a)
  case Nil
  then show ?case by simp
next
  case (Cons p pre)
  have "case pick a p of None \<Rightarrow> True | Some y \<Rightarrow> fst y < x"
    using Cons.prems by (cases a) auto
  then show ?case
    using Cons.IH [of "pick a p"] Cons.prems by simp
qed

lemma pick_first_max:
  assumes "\<forall>q\<in>set pre. fst q < fst r" and "\<forall>q\<in>set post. fst q \<le> fst r"
  shows "foldl pick None (pre @ r # post) = Some r"
proof -
  have "case foldl pick None pre of None \<Rightarrow> True | Some y \<Rightarrow> fst y < fst r"
    using assms(1) by (intro pick_below) simp_all
  then have "pick (foldl pick None pre) r = Some r"
    by (auto split: option.splits)
  then show ?thesis
    using pick_keeps [OF assms(2)] by simp
qed

lemma pick_exists:
  "\<exists>pre r post. a # ps = pre @ r # post \<and> foldl pick (Some a) ps = Some r
     \<and> (\<forall>q\<in>set pre. fst q < fst r) \<and> (\<forall>q\<in>set post. fst q \<le> fst r)"
proof (induction ps rule: rev_induct)
  case Nil
  show ?case by (rule exI [of _ "[]"], rule exI [of _ a], rule exI [of _ "[]"]) simp
next
  case (snoc x ps)
  then obtain pre r post where d: "a # ps = pre @ r # post"
    and w: "foldl pick (Some a) ps = Some r"
    and lo: "\<forall>q\<in>set pre. fst q < fst r" and hi: "\<forall>q\<in>set post. fst q \<le> fst r"
    by blast
  show ?case
  proof (cases "fst x > fst r")
    case True
    have "a # ps @ [x] = (pre @ r # post) @ x # []" using d by simp
    moreover have "foldl pick (Some a) (ps @ [x]) = Some x" using w True by simp
    moreover have "\<forall>q\<in>set (pre @ r # post). fst q < fst x"
      using lo hi True by fastforce
    ultimately show ?thesis by (metis empty_iff list.set(1))
  next
    case False
    have "a # ps @ [x] = pre @ r # (post @ [x])" using d by simp
    moreover have "foldl pick (Some a) (ps @ [x]) = Some r" using w False by simp
    moreover have "\<forall>q\<in>set (post @ [x]). fst q \<le> fst r" using hi False by auto
    ultimately show ?thesis using lo by blast
  qed
qed

lemma pick_None_iff: "foldl pick None ps = None \<longleftrightarrow> ps = []"
proof (cases ps)
  case Nil then show ?thesis by simp
next
  case (Cons a as)
  then show ?thesis using pick_exists [of a as] by auto
qed

lemma getattr_setattr:
  "getattr (setattr m k v) f = (if k = f \<and> f \<in> set canonical then v else getattr m f)"
  by (simp add: setattr_def getattr_def canonical_def str_def)


lemma data_fields_canonical: "f \<in> set data_fields \<Longrightarrow> f \<in> set canonical"
  by (auto simp: data_fields_def canonical_def)

lemma distinct_merge_item:
  "distinct (map fst b) \<Longrightarrow> distinct (map fst (merge_item cand b item))"
  by (simp add: merge_item_def Let_def distinct_update split: option.splits)


lemma distinct_merge_items:
  "distinct (map fst b) \<Longrightarrow> distinct (map fst (foldl (merge_item cand) b items))"
  by (induction items arbitrary: b) (simp_all add: distinct_merge_item)

lemma distinct_best_of_aux:
  "distinct (map fst b) \<Longrightarrow> distinct (map fst (foldl merge_cand b cs))"
  by (induction cs arbitrary: b) (simp_all add: merge_cand_def distinct_merge_items)

lemma distinct_best_of: "distinct (map fst (best_of cs))"
  by (simp add: best_of_def distinct_best_of_aux)

lemma getattr_side [simp]:
  "getattr (m\<lparr>p_evidence := e\<rparr>) f = getattr m f"
  "getattr (m\<lparr>p_confidence := c\<rparr>) f = getattr m f"
  by (simp_all add: getattr_def)

lemma setattr_side [simp]:
  "p_evidence (setattr m k v) = p_evidence m"
  "p_confidence (setattr m k v) = p_confidence m"
  by (simp_all add: setattr_def)

lemma getattr_store_best:
  "getattr (store_best m e) f =
     (if fst e = f \<and> f \<in> set canonical then fst (snd (snd e)) else getattr m f)"
  by (cases "snd (snd (snd e))") (simp_all add: store_best_def Let_def getattr_setattr)

lemma conf_store_best:
  "map_of (p_confidence (store_best m e)) f =
     (if fst e = f then Some (fst (snd e)) else map_of (p_confidence m) f)"
  by (cases "snd (snd (snd e))") (simp_all add: store_best_def Let_def update_conv')

lemma ev_store_best:
  "map_of (p_evidence (store_best m e)) f =
     (if fst e = f
      then (case snd (snd (snd e)) of None \<Rightarrow> map_of (p_evidence m) f | Some x \<Rightarrow> Some x)
      else map_of (p_evidence m) f)"
  by (cases "snd (snd (snd e))") (simp_all add: store_best_def Let_def update_conv')

lemma map_of_absent: "f \<notin> fst ` set b \<Longrightarrow> map_of b f = None"
  by (simp add: map_of_eq_None_iff)

lemma getattr_foldl_store_best:
  "distinct (map fst b) \<Longrightarrow> f \<in> set canonical \<Longrightarrow>
   getattr (foldl store_best m b) f =
     (case map_of b f of None \<Rightarrow> getattr m f | Some t \<Rightarrow> fst (snd t))"
proof (induction b arbitrary: m)
  case Nil
  then show ?case by simp
next
  case (Cons e b)
  have ih: "getattr (foldl store_best (store_best m e) b) f =
     (case map_of b f of None \<Rightarrow> getattr (store_best m e) f | Some t \<Rightarrow> fst (snd t))"
    using Cons by simp
  show ?case
  proof (cases "fst e = f")
    case True
    then have "map_of b f = None" using Cons.prems(1) by (intro map_of_absent) auto
    then show ?thesis using True ih Cons.prems(2) by (cases e) (simp add: getattr_store_best)
  next
    case False
    then show ?thesis using ih by (cases e) (auto simp: getattr_store_best split: option.splits)
  qed
qed

lemma conf_foldl_store_best:
  "distinct (map fst b) \<Longrightarrow>
   map_of (p_confidence (foldl store_best m b)) f =
     (case map_of b f of None \<Rightarrow> map_of (p_confidence m) f | Some t \<Rightarrow> Some (fst t))"
proof (induction b arbitrary: m)
  case Nil
  then show ?case by simp
next
  case (Cons e b)
  have ih: "map_of (p_confidence (foldl store_best (store_best m e) b)) f =
     (case map_of b f of None \<Rightarrow> map_of (p_confidence (store_best m e)) f | Some t \<Rightarrow> Some (fst t))"
    using Cons by simp
  show ?case
  proof (cases "fst e = f")
    case True
    then have "map_of b f = None" using Cons.prems(1) by (intro map_of_absent) auto
    then show ?thesis using True ih by (cases e) (simp add: conf_store_best)
  next
    case False
    then show ?thesis using ih by (cases e) (auto simp: conf_store_best split: option.splits)
  qed
qed

lemma ev_foldl_store_best:
  "distinct (map fst b) \<Longrightarrow>
   map_of (p_evidence (foldl store_best m b)) f =
     (case map_of b f of
        None \<Rightarrow> map_of (p_evidence m) f
      | Some t \<Rightarrow> (case snd (snd t) of None \<Rightarrow> map_of (p_evidence m) f | Some x \<Rightarrow> Some x))"
proof (induction b arbitrary: m)
  case Nil
  then show ?case by simp
next
  case (Cons e b)
  have ih: "map_of (p_evidence (foldl store_best (store_best m e) b)) f =
     (case map_of b f of
        None \<Rightarrow> map_of (p_evidence (store_best m e)) f
      | Some t \<Rightarrow> (case snd (snd t) of None \<Rightarrow> map_of (p_evidence (store_best m e)) f
                    | Some x \<Rightarrow> Some x))"
    using Cons by simp
  show ?case
  proof (cases "fst e = f")
    case True
    then have "map_of b f = None" using Cons.prems(1) by (intro map_of_absent) auto
    then show ?thesis using True ih by (cases e) (simp add: ev_store_best)
  next
    case False
    then show ?thesis using ih by (cases e) (auto simp: ev_store_best split: option.splits)
  qed
qed

lemma getattr_new_data: "f \<in> set data_fields \<Longrightarrow> getattr AGVSpec_new f = PNone"
  by (auto simp: data_fields_def getattr_def AGVSpec_new_def str_def)

lemma getattr_identity_fields:
  "f \<in> set data_fields \<Longrightarrow> getattr (m\<lparr>source_id := a, tool_trace := b\<rparr>) f = getattr m f"
  by (auto simp: data_fields_def getattr_def str_def)

lemma merge_candidates_value:
  assumes "f \<in> set data_fields"
  shows "getattr (merge_candidates cs) f =
     (case foldl pick None (proposals cs f) of None \<Rightarrow> PNone | Some t \<Rightarrow> fst (snd t))"
proof (cases "cs = []")
  case True
  then show ?thesis using assms by (simp add: merge_candidates_def proposals_def getattr_new_data)
next
  case False
  then show ?thesis
    using assms
    by (simp add: merge_candidates_def Let_def getattr_identity_fields getattr_foldl_store_best
        distinct_best_of data_fields_canonical map_of_best_of getattr_new_data
        split: option.splits)
qed

lemma merge_candidates_conf:
  assumes "f \<in> set data_fields"
  shows "map_of (p_confidence (merge_candidates cs)) f
           = map_option fst (foldl pick None (proposals cs f))"
proof (cases "cs = []")
  case True
  then show ?thesis by (simp add: merge_candidates_def proposals_def AGVSpec_new_def)
next
  case False
  then show ?thesis
    using assms
    by (simp add: merge_candidates_def Let_def conf_foldl_store_best distinct_best_of
        data_fields_canonical map_of_best_of AGVSpec_new_def split: option.splits)
qed

lemma merge_candidates_ev:
  assumes "f \<in> set data_fields"
  shows "map_of (p_evidence (merge_candidates cs)) f
           = (case foldl pick None (proposals cs f) of None \<Rightarrow> None | Some t \<Rightarrow> snd (snd t))"
proof (cases "cs = []")
  case True
  then show ?thesis by (simp add: merge_candidates_def proposals_def AGVSpec_new_def)
next
  case False
  then show ?thesis
    using assms
    by (simp add: merge_candidates_def Let_def ev_foldl_store_best distinct_best_of
        data_fields_canonical map_of_best_of AGVSpec_new_def split: option.splits)
qed

text \<open>The same at the level of candidates.\<close>

lemma proposals_of_shape:
  "proposals_of c f =
     (case supplied c f of
        None \<Rightarrow> []
      | Some v \<Rightarrow> (conf_of c f, v, map_of (evidence c) f)
           # tl (proposals_of c f))"
  by (simp add: proposals_of_def supplied_def split: list.splits)

lemma proposes_iff:
  "proposes c f \<longleftrightarrow> filter (\<lambda>item. fst item = f \<and> snd item \<noteq> PNone) (fields_c c) \<noteq> []"
  by (simp add: proposes_def supplied_def split: list.splits)

lemma proposals_of_fst: "q \<in> set (proposals_of c f) \<Longrightarrow> fst q = conf_of c f \<and> proposes c f"
  by (auto simp: proposals_of_def proposes_iff filter_empty_conv)

lemma proposals_fst:
  "q \<in> set (proposals cs f) \<Longrightarrow> \<exists>c\<in>set cs. fst q = conf_of c f \<and> proposes c f"
  by (auto simp: proposals_def dest: proposals_of_fst)

lemma proposals_append: "proposals (xs @ ys) f = proposals xs f @ proposals ys f"
  by (simp add: proposals_def)

lemma proposals_Cons: "proposals (c # ys) f = proposals_of c f @ proposals ys f"
  by (simp add: proposals_def)

lemma winner_is_first_max:
  assumes s: "supplied c f = Some v"
    and lo: "\<forall>d\<in>set pre. proposes d f \<longrightarrow> conf_of d f < conf_of c f"
    and hi: "\<forall>d\<in>set post. proposes d f \<longrightarrow> conf_of d f \<le> conf_of c f"
  shows "foldl pick None (proposals (pre @ c # post) f)
           = Some (conf_of c f, v, map_of (evidence c) f)"
proof -
  let ?r = "(conf_of c f, v, map_of (evidence c) f)"
  have sh: "proposals_of c f = ?r # tl (proposals_of c f)"
    using s proposals_of_shape [of c f] by simp
  have eq: "proposals (pre @ c # post) f
              = proposals pre f @ ?r # (tl (proposals_of c f) @ proposals post f)"
    using sh by (simp add: proposals_append proposals_Cons)
  have a: "\<forall>q\<in>set (proposals pre f). fst q < fst ?r"
    using lo by (auto dest!: proposals_fst)
  have "\<forall>q\<in>set (tl (proposals_of c f)). fst q \<le> fst ?r"
  proof
    fix q assume "q \<in> set (tl (proposals_of c f))"
    then have "q \<in> set (proposals_of c f)" by (metis list.sel(2) list.set_sel(2))
    then show "fst q \<le> fst ?r" by (auto dest: proposals_of_fst)
  qed
  moreover have "\<forall>q\<in>set (proposals post f). fst q \<le> fst ?r"
    using hi by (auto dest!: proposals_fst)
  ultimately have b: "\<forall>q\<in>set (tl (proposals_of c f) @ proposals post f). fst q \<le> fst ?r"
    by auto
  show ?thesis unfolding eq by (rule pick_first_max [OF a b])
qed

lemma proposals_empty_iff: "proposals cs f = [] \<longleftrightarrow> (\<forall>c\<in>set cs. \<not> proposes c f)"
  by (simp add: proposals_def proposals_of_def proposes_iff)

lemma exists_first_max:
  assumes "\<exists>c\<in>set cs. proposes c f"
  shows "\<exists>pre c post. cs = pre @ c # post \<and> proposes c f
           \<and> (\<forall>d\<in>set pre. proposes d f \<longrightarrow> conf_of d f < conf_of c f)
           \<and> (\<forall>d\<in>set post. proposes d f \<longrightarrow> conf_of d f \<le> conf_of c f)"
proof -
  let ?S = "(\<lambda>c. conf_of c f) ` {c \<in> set cs. proposes c f}"
  have fin: "finite ?S" by simp
  have ne: "?S \<noteq> {}" using assms by auto
  let ?M = "Max ?S"
  have "?M \<in> ?S" using fin ne by (rule Max_in)
  then have ex: "\<exists>c\<in>set cs. proposes c f \<and> conf_of c f = ?M" by auto
  have le: "\<And>d. d \<in> set cs \<Longrightarrow> proposes d f \<Longrightarrow> conf_of d f \<le> ?M"
    by (rule Max_ge [OF fin]) auto
  from split_list_first_prop [OF ex]
  obtain pre c post where d: "cs = pre @ c # post" and c: "proposes c f \<and> conf_of c f = ?M"
    and pre: "\<forall>d\<in>set pre. \<not> (proposes d f \<and> conf_of d f = ?M)"
    by blast
  have "\<forall>d\<in>set pre. proposes d f \<longrightarrow> conf_of d f < conf_of c f"
  proof (intro ballI impI)
    fix e assume e: "e \<in> set pre" "proposes e f"
    then have "conf_of e f \<le> ?M" using le d by simp
    moreover have "conf_of e f \<noteq> ?M" using pre e by blast
    ultimately show "conf_of e f < conf_of c f" using c by simp
  qed
  moreover have "\<forall>d\<in>set post. proposes d f \<longrightarrow> conf_of d f \<le> conf_of c f"
    using le d c by simp
  ultimately show ?thesis using d c by blast
qed

lemma supplied_not_None: "supplied c f = Some v \<Longrightarrow> v \<noteq> PNone"
proof -
  let ?P = "\<lambda>item. fst item = f \<and> snd item \<noteq> PNone"
  assume "supplied c f = Some v"
  then obtain item rest where e: "filter ?P (fields_c c) = item # rest" and v: "v = snd item"
    by (auto simp: supplied_def split: list.splits)
  have "item \<in> set (filter ?P (fields_c c))" unfolding e by simp
  then show ?thesis using v by simp
qed

lemma winner_triple:
  assumes f: "f \<in> set data_fields" and s: "supplied c f = Some v"
    and lo: "\<forall>d\<in>set pre. proposes d f \<longrightarrow> conf_of d f < conf_of c f"
    and hi: "\<forall>d\<in>set post. proposes d f \<longrightarrow> conf_of d f \<le> conf_of c f"
  shows "getattr (merge_candidates (pre @ c # post)) f = v
       \<and> map_of (p_confidence (merge_candidates (pre @ c # post))) f = Some (conf_of c f)
       \<and> map_of (p_evidence (merge_candidates (pre @ c # post))) f = map_of (evidence c) f"
  using winner_is_first_max [OF s lo hi]
  by (simp add: merge_candidates_value [OF f] merge_candidates_conf [OF f]
      merge_candidates_ev [OF f])

lemma populated_iff:
  assumes f: "f \<in> set data_fields"
  shows "getattr (merge_candidates cs) f \<noteq> PNone \<longleftrightarrow> (\<exists>c\<in>set cs. proposes c f)"
proof (cases "\<exists>c\<in>set cs. proposes c f")
  case True
  from exists_first_max [OF True] obtain pre c post where d: "cs = pre @ c # post"
    and c: "proposes c f"
    and lo: "\<forall>d\<in>set pre. proposes d f \<longrightarrow> conf_of d f < conf_of c f"
    and hi: "\<forall>d\<in>set post. proposes d f \<longrightarrow> conf_of d f \<le> conf_of c f"
    by blast
  from c obtain v where v: "supplied c f = Some v" by (auto simp: proposes_def)
  have "v \<noteq> PNone" using v by (rule supplied_not_None)
  then show ?thesis using winner_triple [OF f v lo hi] d True by simp
next
  case False
  then have "proposals cs f = []" by (simp add: proposals_empty_iff)
  then show ?thesis using False by (simp add: merge_candidates_value [OF f])
qed

lemma stable_permutation:
  assumes f: "f \<in> set data_fields"
    and st: "\<forall>x. filter (\<lambda>c. proposes c f \<and> conf_of c f = x) cs'
                 = filter (\<lambda>c. proposes c f \<and> conf_of c f = x) cs"
  shows "getattr (merge_candidates cs') f = getattr (merge_candidates cs) f
       \<and> map_of (p_confidence (merge_candidates cs')) f = map_of (p_confidence (merge_candidates cs)) f
       \<and> map_of (p_evidence (merge_candidates cs')) f = map_of (p_evidence (merge_candidates cs)) f"
proof -
  have mem: "\<And>d. proposes d f \<Longrightarrow> d \<in> set cs' \<longleftrightarrow> d \<in> set cs"
  proof -
    fix d assume p: "proposes d f"
    have "d \<in> set cs' \<longleftrightarrow> d \<in> set (filter (\<lambda>c. proposes c f \<and> conf_of c f = conf_of d f) cs')"
      using p by simp
    also have "\<dots> \<longleftrightarrow> d \<in> set (filter (\<lambda>c. proposes c f \<and> conf_of c f = conf_of d f) cs)"
      using st by simp
    also have "\<dots> \<longleftrightarrow> d \<in> set cs" using p by simp
    finally show "d \<in> set cs' \<longleftrightarrow> d \<in> set cs" .
  qed
  show ?thesis
  proof (cases "\<exists>c\<in>set cs. proposes c f")
    case False
    then have "\<not> (\<exists>c\<in>set cs'. proposes c f)" using mem by blast
    then have "proposals cs' f = []" "proposals cs f = []"
      using False by (simp_all add: proposals_empty_iff)
    then show ?thesis
      by (simp add: merge_candidates_value [OF f] merge_candidates_conf [OF f]
          merge_candidates_ev [OF f])
  next
    case True
    from exists_first_max [OF True] obtain pre c post where d: "cs = pre @ c # post"
      and c: "proposes c f"
      and lo: "\<forall>d\<in>set pre. proposes d f \<longrightarrow> conf_of d f < conf_of c f"
      and hi: "\<forall>d\<in>set post. proposes d f \<longrightarrow> conf_of d f \<le> conf_of c f"
      by blast
    from c obtain v where v: "supplied c f = Some v" by (auto simp: proposes_def)
    let ?E = "\<lambda>e. proposes e f \<and> conf_of e f = conf_of c f"
    have "filter ?E pre = []" using lo by (auto simp: filter_empty_conv)
    then have "filter ?E cs = c # filter ?E post" using d c by simp
    then have "filter ?E cs' = c # filter ?E post" using st by simp
    then obtain us vs where d': "cs' = us @ c # vs" and us: "\<forall>u\<in>set us. \<not> ?E u"
      by (auto simp: filter_eq_Cons_iff)
    have all: "\<And>e. e \<in> set cs' \<Longrightarrow> proposes e f \<Longrightarrow> conf_of e f \<le> conf_of c f"
    proof -
      fix e assume e: "e \<in> set cs'" "proposes e f"
      then have "e \<in> set cs" using mem by blast
      then show "conf_of e f \<le> conf_of c f" using d lo hi e(2) by auto
    qed
    have lo': "\<forall>d\<in>set us. proposes d f \<longrightarrow> conf_of d f < conf_of c f"
    proof (intro ballI impI)
      fix e assume e: "e \<in> set us" "proposes e f"
      then have "conf_of e f \<le> conf_of c f" using all d' by simp
      moreover have "conf_of e f \<noteq> conf_of c f" using us e by blast
      ultimately show "conf_of e f < conf_of c f" by simp
    qed
    have hi': "\<forall>d\<in>set vs. proposes d f \<longrightarrow> conf_of d f \<le> conf_of c f"
      using all d' by simp
    show ?thesis
      using winner_triple [OF f v lo hi] winner_triple [OF f v lo' hi'] d d' by simp
  qed
qed

subsection \<open>Merge: the highest confidence wins, the earliest among equals\<close>

lemma ex_a: "supplied cand_a (str ''payload_kg'') = Some (PFloat 250)"
  by (simp add: supplied_def cand_a_def)

lemma ex_conf: "conf_of cand_a (str ''payload_kg'') = 0.65" "conf_of cand_b (str ''payload_kg'') = 0.65"
  "conf_of cand_c (str ''payload_kg'') = 0.3"
  by (simp_all add: conf_of_def cand_a_def cand_b_def cand_c_def)

lemma ex_prop: "proposes cand_a (str ''payload_kg'')" "proposes cand_b (str ''payload_kg'')"
  "proposes cand_c (str ''payload_kg'')"
  by (simp_all add: proposes_def supplied_def cand_a_def cand_b_def cand_c_def)

lemma payload_data: "str ''payload_kg'' \<in> set data_fields"
  by (simp add: data_fields_def)

text \<open>
  C1, amended. For every list of candidates and every canonical field other than
  \<open>source_id\<close> and \<open>tool_trace\<close>: the merged record holds a value under the field if
  and only if some candidate supplies a value that is not None under that name. When some
  candidate does, there is a first candidate of maximal confidence among the proposers
  (every earlier proposer has strictly lower confidence, every later one has lower or
  equal confidence), and the stored value, the recorded confidence and the evidence are
  those of that candidate. A reordering of the list that keeps, for each confidence, the
  proposers of that confidence in the same order (in particular every such permutation)
  leaves the value, confidence and evidence of the field as they are. For a list that is
  not empty, \<open>source_id\<close> is the identifier of the last candidate and
  \<open>tool_trace\<close> lists the tools of all candidates in order.
\<close>

theorem merge_candidates_first_maximum:
  assumes f: "f \<in> set data_fields"
  shows "(getattr (merge_candidates cs) f \<noteq> PNone \<longleftrightarrow> (\<exists>c\<in>set cs. proposes c f))
    \<and> ((\<exists>c\<in>set cs. proposes c f) \<longrightarrow>
         (\<exists>pre c post. cs = pre @ c # post \<and> proposes c f
            \<and> (\<forall>d\<in>set pre. proposes d f \<longrightarrow> conf_of d f < conf_of c f)
            \<and> (\<forall>d\<in>set post. proposes d f \<longrightarrow> conf_of d f \<le> conf_of c f)))
    \<and> (\<forall>pre c post v. cs = pre @ c # post \<and> supplied c f = Some v
            \<and> (\<forall>d\<in>set pre. proposes d f \<longrightarrow> conf_of d f < conf_of c f)
            \<and> (\<forall>d\<in>set post. proposes d f \<longrightarrow> conf_of d f \<le> conf_of c f)
          \<longrightarrow> getattr (merge_candidates cs) f = v
            \<and> map_of (p_confidence (merge_candidates cs)) f = Some (conf_of c f)
            \<and> map_of (p_evidence (merge_candidates cs)) f = map_of (evidence c) f)
    \<and> (\<forall>cs'. (\<forall>x. filter (\<lambda>c. proposes c f \<and> conf_of c f = x) cs'
                     = filter (\<lambda>c. proposes c f \<and> conf_of c f = x) cs)
          \<longrightarrow> getattr (merge_candidates cs') f = getattr (merge_candidates cs) f
            \<and> map_of (p_confidence (merge_candidates cs')) f
                = map_of (p_confidence (merge_candidates cs)) f
            \<and> map_of (p_evidence (merge_candidates cs')) f
                = map_of (p_evidence (merge_candidates cs)) f)
    \<and> (cs \<noteq> [] \<longrightarrow> source_id (merge_candidates cs) = PStr (source_id_c (last cs))
                    \<and> tool_trace (merge_candidates cs) = PStrList (map tool cs))"
proof (intro conjI)
  show "getattr (merge_candidates cs) f \<noteq> PNone \<longleftrightarrow> (\<exists>c\<in>set cs. proposes c f)"
    by (rule populated_iff [OF f])
  show "(\<exists>c\<in>set cs. proposes c f) \<longrightarrow>
         (\<exists>pre c post. cs = pre @ c # post \<and> proposes c f
            \<and> (\<forall>d\<in>set pre. proposes d f \<longrightarrow> conf_of d f < conf_of c f)
            \<and> (\<forall>d\<in>set post. proposes d f \<longrightarrow> conf_of d f \<le> conf_of c f))"
    using exists_first_max [of cs f] by blast
  show "\<forall>pre c post v. cs = pre @ c # post \<and> supplied c f = Some v
            \<and> (\<forall>d\<in>set pre. proposes d f \<longrightarrow> conf_of d f < conf_of c f)
            \<and> (\<forall>d\<in>set post. proposes d f \<longrightarrow> conf_of d f \<le> conf_of c f)
          \<longrightarrow> getattr (merge_candidates cs) f = v
            \<and> map_of (p_confidence (merge_candidates cs)) f = Some (conf_of c f)
            \<and> map_of (p_evidence (merge_candidates cs)) f = map_of (evidence c) f"
    using winner_triple [OF f] by blast
  show "\<forall>cs'. (\<forall>x. filter (\<lambda>c. proposes c f \<and> conf_of c f = x) cs'
                     = filter (\<lambda>c. proposes c f \<and> conf_of c f = x) cs)
          \<longrightarrow> getattr (merge_candidates cs') f = getattr (merge_candidates cs) f
            \<and> map_of (p_confidence (merge_candidates cs')) f
                = map_of (p_confidence (merge_candidates cs)) f
            \<and> map_of (p_evidence (merge_candidates cs')) f
                = map_of (p_evidence (merge_candidates cs)) f"
    using stable_permutation [OF f] by blast
  show "cs \<noteq> [] \<longrightarrow> source_id (merge_candidates cs) = PStr (source_id_c (last cs))
                    \<and> tool_trace (merge_candidates cs) = PStrList (map tool cs)"
    by (simp add: merge_candidates_def Let_def)
qed

theorem merge_candidates_first_maximum_witness:
  "str ''payload_kg'' \<in> set data_fields
   \<and> getattr (merge_candidates [cand_c, cand_a, cand_b]) (str ''payload_kg'') = PFloat 250
   \<and> map_of (p_confidence (merge_candidates [cand_c, cand_a, cand_b])) (str ''payload_kg'') = Some 0.65
   \<and> getattr (merge_candidates [cand_a, cand_c, cand_b]) (str ''payload_kg'') = PFloat 250"
proof -
  let ?f = "str ''payload_kg''"
  note t = merge_candidates_first_maximum [OF payload_data, of "[cand_c, cand_a, cand_b]"]
  have lo: "\<forall>d\<in>set [cand_c]. proposes d ?f \<longrightarrow> conf_of d ?f < conf_of cand_a ?f"
    by (simp add: ex_conf)
  have hi: "\<forall>d\<in>set [cand_b]. proposes d ?f \<longrightarrow> conf_of d ?f \<le> conf_of cand_a ?f"
    by (simp add: ex_conf)
  have d: "[cand_c, cand_a, cand_b] = [cand_c] @ cand_a # [cand_b]" by simp
  have w: "getattr (merge_candidates [cand_c, cand_a, cand_b]) ?f = PFloat 250
         \<and> map_of (p_confidence (merge_candidates [cand_c, cand_a, cand_b])) ?f = Some (conf_of cand_a ?f)"
    using t d ex_a lo hi by blast
  have st: "\<forall>x. filter (\<lambda>c. proposes c ?f \<and> conf_of c ?f = x) [cand_a, cand_c, cand_b]
               = filter (\<lambda>c. proposes c ?f \<and> conf_of c ?f = x) [cand_c, cand_a, cand_b]"
    by (simp add: ex_conf ex_prop)
  have "getattr (merge_candidates [cand_a, cand_c, cand_b]) ?f
          = getattr (merge_candidates [cand_c, cand_a, cand_b]) ?f"
    using t st by blast
  with w show ?thesis by (simp add: ex_conf payload_data)
qed

text \<open>
  \<open>source_id\<close> is a canonical name, and the merge of one candidate that proposes
  nothing holds the document identifier under it; and exchanging two candidates of
  different confidence changes the tool trace of the result.
\<close>

theorem merge_candidates_first_maximum_counterexample:
  "str ''source_id'' \<in> set canonical
   \<and> \<not> proposes cand_empty (str ''source_id'')
   \<and> getattr (merge_candidates [cand_empty]) (str ''source_id'') = PStr (str ''doc.pdf'')
   \<and> tool_trace (merge_candidates [cand_c, cand_a]) = PStrList [str ''key_value'', str ''regex_agilox'']
   \<and> tool_trace (merge_candidates [cand_a, cand_c]) = PStrList [str ''regex_agilox'', str ''key_value'']"
  by (simp add: canonical_def proposes_def supplied_def cand_empty_def cand_a_def cand_c_def
      merge_candidates_def getattr_def Let_def)

subsection \<open>Validation\<close>

lemma map_of_penalize:
  "map_of (penalize conf k) k' =
     (if k' = k then map_option (\<lambda>x. x / 2) (map_of conf k) else map_of conf k')"
  by (auto simp: penalize_def update_conv' split: option.splits)

lemma keys_penalize: "map fst (penalize conf k) = map fst conf"
proof (cases "map_of conf k")
  case None
  then show ?thesis by (simp add: penalize_def)
next
  case (Some x)
  then have "k \<in> fst ` set conf" by (metis map_of_eq_None_iff option.distinct(1))
  then show ?thesis using Some by (simp add: penalize_def update_keys)
qed

lemma implausible_iff: "implausible v hi = outside_range v hi"
  by (auto simp: implausible_def outside_range_def split: option.splits)

lemma map_of_validate:
  "map_of (confidence (validate_candidate c)) k =
    (if (k = str ''payload_kg'' \<and> outside_range (dict_get (fields_c c) k) 100000)
        \<or> (k \<in> set (map str [''length_mm'', ''width_mm'', ''height_mm''])
            \<and> outside_range (dict_get (fields_c c) k) 50000)
     then map_option (\<lambda>x. x / 2) (map_of (confidence c) k)
     else map_of (confidence c) k)"
  by (simp add: validate_candidate_def Let_def map_of_penalize implausible_iff str_def)

lemma keys_validate: "map fst (confidence (validate_candidate c)) = map fst (confidence c)"
  by (simp add: validate_candidate_def Let_def keys_penalize)

lemma validate_frame [simp]:
  "fields_c (validate_candidate c) = fields_c c"
  "evidence (validate_candidate c) = evidence c"
  "source_id_c (validate_candidate c) = source_id_c c"
  "tool (validate_candidate c) = tool c"
  by (simp_all add: validate_candidate_def Let_def)

lemma supplied_validate [simp]: "supplied (validate_candidate c) f = supplied c f"
  by (simp add: supplied_def)



text \<open>
  C7. The validator leaves the fields, the evidence, the document identifier and the
  tool of a candidate as they are. The confidence mapping keeps its keys in their order,
  and each entry is kept or halved, so an entry that is not negative is never raised. A
  value that the candidate supplies, in range or not, is therefore still there after
  validation, and it is the merged value of its field whenever no other candidate of the
  list proposes that field.
\<close>

theorem validate_candidate_keeps_values:
  "fields_c (validate_candidate c) = fields_c c
   \<and> evidence (validate_candidate c) = evidence c
   \<and> source_id_c (validate_candidate c) = source_id_c c
   \<and> tool (validate_candidate c) = tool c
   \<and> map fst (confidence (validate_candidate c)) = map fst (confidence c)
   \<and> (\<forall>k x. map_of (confidence c) k = Some x \<longrightarrow>
        map_of (confidence (validate_candidate c)) k = Some x
        \<or> map_of (confidence (validate_candidate c)) k = Some (x / 2))
   \<and> (\<forall>k x. map_of (confidence c) k = Some x \<and> 0 \<le> x \<longrightarrow>
        (\<exists>y. map_of (confidence (validate_candidate c)) k = Some y \<and> y \<le> x))
   \<and> (\<forall>f v pre post. f \<in> set data_fields \<and> supplied c f = Some v
          \<and> (\<forall>d\<in>set (pre @ post). \<not> proposes d f)
        \<longrightarrow> getattr (merge_candidates (pre @ validate_candidate c # post)) f = v)"
proof -
  have a: "\<forall>k x. map_of (confidence c) k = Some x \<longrightarrow>
        map_of (confidence (validate_candidate c)) k = Some x
        \<or> map_of (confidence (validate_candidate c)) k = Some (x / 2)"
    by (simp add: map_of_validate)
  have b: "\<forall>k x. map_of (confidence c) k = Some x \<and> 0 \<le> x \<longrightarrow>
        (\<exists>y. map_of (confidence (validate_candidate c)) k = Some y \<and> y \<le> x)"
  proof (intro allI impI)
    fix k x assume h: "map_of (confidence c) k = Some x \<and> 0 \<le> x"
    with a have "map_of (confidence (validate_candidate c)) k = Some x
        \<or> map_of (confidence (validate_candidate c)) k = Some (x / 2)"
      by blast
    moreover have "x / 2 \<le> x" using h by simp
    ultimately show "\<exists>y. map_of (confidence (validate_candidate c)) k = Some y \<and> y \<le> x"
      by auto
  qed
  have m: "getattr (merge_candidates (pre @ validate_candidate c # post)) f = v"
    if "f \<in> set data_fields" "supplied c f = Some v" "\<forall>d\<in>set (pre @ post). \<not> proposes d f"
    for f v pre post
    using winner_triple [of f "validate_candidate c" v pre post] that by simp
  show ?thesis using a b m by (simp add: keys_validate)
qed

theorem validate_candidate_keeps_values_witness:
  "str ''payload_kg'' \<in> set data_fields
   \<and> supplied cand_heavy (str ''payload_kg'') = Some (PFloat 100000.01)
   \<and> \<not> proposes cand_empty (str ''payload_kg'')
   \<and> getattr (merge_candidates ([cand_empty] @ validate_candidate cand_heavy # [cand_empty]))
        (str ''payload_kg'') = PFloat 100000.01
   \<and> map_of (confidence cand_heavy) (str ''payload_kg'') = Some 0.65
   \<and> (\<exists>y. map_of (confidence (validate_candidate cand_heavy)) (str ''payload_kg'') = Some y \<and> y \<le> 0.65)"
proof -
  have s: "supplied cand_heavy (str ''payload_kg'') = Some (PFloat 100000.01)"
    by (simp add: supplied_def cand_heavy_def)
  have n: "\<forall>d\<in>set ([cand_empty] @ [cand_empty]). \<not> proposes d (str ''payload_kg'')"
    by (simp add: proposes_def supplied_def cand_empty_def)
  have c: "map_of (confidence cand_heavy) (str ''payload_kg'') = Some 0.65"
    by (simp add: cand_heavy_def)
  have z: "(0::real) \<le> 0.65" by simp
  have e: "\<not> proposes cand_empty (str ''payload_kg'')"
    by (simp add: proposes_def supplied_def cand_empty_def)
  from validate_candidate_keeps_values [of cand_heavy] s n c z payload_data
  have "getattr (merge_candidates ([cand_empty] @ validate_candidate cand_heavy # [cand_empty]))
          (str ''payload_kg'') = PFloat 100000.01
     \<and> (\<exists>y. map_of (confidence (validate_candidate cand_heavy)) (str ''payload_kg'') = Some y
            \<and> y \<le> 0.65)"
    by blast
  with s e c payload_data show ?thesis by simp
qed

subsection \<open>Candidates of the key-value tool\<close>

lemma pick_None_Cons: "foldl pick None (a # ps) = foldl pick (Some a) ps"
  by simp

lemma pick_first_max_exists:
  assumes "ps \<noteq> []"
  shows "\<exists>pre r post. ps = pre @ r # post \<and> foldl pick None ps = Some r
     \<and> (\<forall>q\<in>set pre. fst q < fst r) \<and> (\<forall>q\<in>set post. fst q \<le> fst r)"
proof -
  from assms obtain a as where ps: "ps = a # as" by (cases ps) auto
  show ?thesis unfolding ps pick_None_Cons by (rule pick_exists)
qed

lemma pick_insert_low:
  assumes big: "\<exists>q\<in>set (P1 @ P2). z < fst q" and low: "\<forall>q\<in>set Pc. fst q \<le> z"
  shows "foldl pick None (P1 @ Pc @ P2) = foldl pick None (P1 @ P2)"
proof -
  have "P1 @ P2 \<noteq> []" using big by auto
  from pick_first_max_exists [OF this]
  obtain pre r post where d: "P1 @ P2 = pre @ r # post"
    and w: "foldl pick None (P1 @ P2) = Some r"
    and lo: "\<forall>q\<in>set pre. fst q < fst r" and hi: "\<forall>q\<in>set post. fst q \<le> fst r"
    by blast
  from big obtain q where q: "q \<in> set (P1 @ P2)" "z < fst q" by blast
  have "fst q \<le> fst r" using q(1) lo hi unfolding d by auto
  then have zr: "z < fst r" using q(2) by simp
  then have lowr: "\<forall>p\<in>set Pc. fst p < fst r" using low by fastforce
  from d obtain us where "(P1 = pre @ us \<and> us @ P2 = r # post) \<or> (P1 @ us = pre \<and> P2 = us @ r # post)"
    by (auto simp: append_eq_append_conv2)
  then show ?thesis
  proof
    assume c: "P1 = pre @ us \<and> us @ P2 = r # post"
    show ?thesis
    proof (cases us)
      case Nil
      then have e: "P1 @ Pc @ P2 = (pre @ Pc) @ r # post" using c by simp
      have "\<forall>p\<in>set (pre @ Pc). fst p < fst r" using lo lowr by auto
      then show ?thesis unfolding e w by (rule pick_first_max) (rule hi)
    next
      case (Cons u us')
      then have u: "u = r" and p: "post = us' @ P2" using c by auto
      have e: "P1 @ Pc @ P2 = pre @ r # (us' @ Pc @ P2)" using c Cons u by simp
      have "\<forall>p\<in>set (us' @ Pc @ P2). fst p \<le> fst r"
        using hi lowr unfolding p by fastforce
      then show ?thesis unfolding e w by (intro pick_first_max lo)
    qed
  next
    assume c: "P1 @ us = pre \<and> P2 = us @ r # post"
    then have e: "P1 @ Pc @ P2 = (P1 @ Pc @ us) @ r # post" by simp
    have "\<forall>p\<in>set (P1 @ Pc @ us). fst p < fst r" using lo lowr c by auto
    then show ?thesis unfolding e w by (rule pick_first_max) (rule hi)
  qed
qed

lemma normalize_frame [simp]:
  "confidence (normalize_candidate c) = confidence c"
  "evidence (normalize_candidate c) = evidence c"
  "source_id_c (normalize_candidate c) = source_id_c c"
  "tool (normalize_candidate c) = tool c"
  by (simp_all add: normalize_candidate_def Let_def)

lemma kv_confidence:
  "confidence (validate_candidate (normalize_candidate (from_key_values kv sid t)))
     = [(str ''_kv'', 0.55)]"
  by (simp add: validate_candidate_def Let_def penalize_def from_key_values_def str_def)

lemma kv_conf_of:
  "f \<in> set canonical \<Longrightarrow>
   conf_of (validate_candidate (normalize_candidate (from_key_values kv sid t))) f = 0"
  by (auto simp: conf_of_def kv_confidence canonical_def str_def)

lemma supplied_in_proposals:
  assumes "d \<in> set cs" "proposes d f"
  shows "\<exists>q\<in>set (proposals cs f). fst q = conf_of d f"
proof -
  from assms(2) obtain v where "supplied d f = Some v" by (auto simp: proposes_def)
  then have "(conf_of d f, v, map_of (evidence d) f) \<in> set (proposals_of d f)"
    using proposals_of_shape [of d f] by (metis list.set_intros(1) option.simps(5))
  then show ?thesis using assms(1) by (force simp: proposals_def)
qed

lemma zero_confidence_loses:
  assumes f: "f \<in> set data_fields" and z: "conf_of c f = 0"
    and d: "d \<in> set (pre @ post)" "proposes d f" "0 < conf_of d f"
  shows "foldl pick None (proposals (pre @ c # post) f) = foldl pick None (proposals (pre @ post) f)"
proof -
  have e: "proposals (pre @ c # post) f = proposals pre f @ proposals_of c f @ proposals post f"
    by (simp add: proposals_append proposals_Cons)
  have big: "\<exists>q\<in>set (proposals pre f @ proposals post f). 0 < fst q"
  proof -
    from supplied_in_proposals [OF d(1) d(2)]
    obtain q where q: "q \<in> set (proposals (pre @ post) f)" "fst q = conf_of d f" by blast
    then have "q \<in> set (proposals pre f @ proposals post f)" by (simp add: proposals_append)
    moreover have "0 < fst q" using q d(3) by simp
    ultimately show ?thesis by blast
  qed
  have low: "\<forall>q\<in>set (proposals_of c f). fst q \<le> 0"
    using z by (auto dest: proposals_of_fst)
  show ?thesis unfolding e using pick_insert_low [OF big low] by (simp add: proposals_append)
qed


text \<open>
  C9. A candidate built by \<open>from_key_values\<close>, normalised and validated, has a
  confidence entry under \<open>_kv\<close> only, so its confidence for every canonical field is
  the default 0.0, the confidence with which merge records a field that has no entry. Such
  a candidate loses wherever it stands in the list: when another candidate of the list
  proposes the field with a confidence above 0, the merged value, confidence and evidence
  of the field are those of the merge without the key-value candidate, and the recorded
  confidence is above 0.
\<close>

theorem key_value_candidate_merges_at_zero:
  "confidence (validate_candidate (normalize_candidate (from_key_values kv sid t)))
     = [(str ''_kv'', 0.55)]
   \<and> (\<forall>f\<in>set canonical.
        conf_of (validate_candidate (normalize_candidate (from_key_values kv sid t))) f = 0)
   \<and> (\<forall>c f v. f \<in> set data_fields \<and> map_of (confidence c) f = None \<and> supplied c f = Some v
        \<longrightarrow> map_of (p_confidence (merge_candidates [c])) f = Some 0)
   \<and> (\<forall>f pre post d. f \<in> set data_fields \<and> d \<in> set (pre @ post) \<and> proposes d f
          \<and> 0 < conf_of d f
        \<longrightarrow> (let c = validate_candidate (normalize_candidate (from_key_values kv sid t));
                 with_kv = merge_candidates (pre @ c # post);
                 without_kv = merge_candidates (pre @ post)
             in getattr with_kv f = getattr without_kv f
              \<and> map_of (p_confidence with_kv) f = map_of (p_confidence without_kv) f
              \<and> map_of (p_evidence with_kv) f = map_of (p_evidence without_kv) f
              \<and> (\<exists>x>0. map_of (p_confidence with_kv) f = Some x)))"
proof -
  let ?c = "validate_candidate (normalize_candidate (from_key_values kv sid t))"
  have a: "\<forall>f\<in>set canonical. conf_of ?c f = 0" by (simp add: kv_conf_of)
  have b: "map_of (p_confidence (merge_candidates [c])) f = Some 0"
    if "f \<in> set data_fields" "map_of (confidence c) f = None" "supplied c f = Some v" for c f v
  proof -
    have "conf_of c f = 0" using that(2) by (simp add: conf_of_def)
    then show ?thesis using winner_triple [of f c v "[]" "[]"] that by simp
  qed
  have c: "getattr (merge_candidates (pre @ ?c # post)) f = getattr (merge_candidates (pre @ post)) f
     \<and> map_of (p_confidence (merge_candidates (pre @ ?c # post))) f
         = map_of (p_confidence (merge_candidates (pre @ post))) f
     \<and> map_of (p_evidence (merge_candidates (pre @ ?c # post))) f
         = map_of (p_evidence (merge_candidates (pre @ post))) f
     \<and> (\<exists>x>0. map_of (p_confidence (merge_candidates (pre @ ?c # post))) f = Some x)"
    if f: "f \<in> set data_fields" and d: "d \<in> set (pre @ post)" "proposes d f" "0 < conf_of d f"
    for f pre post d
  proof -
    have z: "conf_of ?c f = 0" using f by (simp add: kv_conf_of data_fields_canonical)
    note e = zero_confidence_loses [OF f z d]
    have ne: "proposals (pre @ post) f \<noteq> []"
      using d by (auto simp: proposals_empty_iff)
    from pick_first_max_exists [OF ne]
    obtain p r q where dd: "proposals (pre @ post) f = p @ r # q"
      and w: "foldl pick None (proposals (pre @ post) f) = Some r"
      and lo: "\<forall>x\<in>set p. fst x < fst r" and hi: "\<forall>x\<in>set q. fst x \<le> fst r"
      by blast
    from supplied_in_proposals [OF d(1) d(2)]
    obtain y where y: "y \<in> set (proposals (pre @ post) f)" "fst y = conf_of d f" by blast
    have "fst y \<le> fst r" using y(1) lo hi unfolding dd by auto
    then have "0 < fst r" using y(2) d(3) by simp
    then show ?thesis
      by (simp add: merge_candidates_value [OF f] merge_candidates_conf [OF f]
          merge_candidates_ev [OF f] e w)
  qed
  show ?thesis
    unfolding Let_def using a b c by (simp add: kv_confidence) blast
qed

theorem key_value_candidate_merges_at_zero_witness:
  "str ''payload_kg'' \<in> set data_fields \<and> cand_c \<in> set ([cand_c] @ [])
   \<and> proposes cand_c (str ''payload_kg'') \<and> 0 < conf_of cand_c (str ''payload_kg'')
   \<and> supplied (validate_candidate (normalize_candidate
        (from_key_values kv_example (str ''doc.pdf'') (str ''key_value'')))) (str ''payload_kg'')
        = Some (PFloat 500)
   \<and> getattr (merge_candidates ([cand_c] @ validate_candidate (normalize_candidate
        (from_key_values kv_example (str ''doc.pdf'') (str ''key_value''))) # []))
        (str ''payload_kg'') = PFloat 7"
proof -
  let ?c = "validate_candidate (normalize_candidate
        (from_key_values kv_example (str ''doc.pdf'') (str ''key_value'')))"
  have s: "supplied ?c (str ''payload_kg'') = Some (PFloat 500)"
    by code_simp
  have m: "cand_c \<in> set ([cand_c] @ [])" by simp
  have p: "0 < conf_of cand_c (str ''payload_kg'')" by (simp add: ex_conf)
  have g: "getattr (merge_candidates ([cand_c] @ [])) (str ''payload_kg'') = PFloat 7"
    using winner_triple [of "str ''payload_kg''" cand_c "PFloat 7" "[]" "[]"]
    by (simp add: payload_data supplied_def cand_c_def)
  from key_value_candidate_merges_at_zero
    [of kv_example "str ''doc.pdf''" "str ''key_value''"] payload_data m ex_prop(3) p
  have "getattr (merge_candidates ([cand_c] @ ?c # [])) (str ''payload_kg'')
      = getattr (merge_candidates ([cand_c] @ [])) (str ''payload_kg'')"
    unfolding Let_def by blast
  with g s m p payload_data ex_prop(3) show ?thesis by simp
qed

subsection \<open>The orchestration loop\<close>

lemma run_tool_known:
  "t \<in> set known_tools \<Longrightarrow> \<exists>new. run_tool X t dtext sid be = Inr new"
  by (auto simp: run_tool_def known_tools_def)

lemma tool_plan_known: "set (tool_plan_for_text dtext) \<subseteq> set known_tools"
  by (auto simp: tool_plan_for_text_def known_tools_def)

lemma set_slice_to: "set (slice_to xs n) \<subseteq> set xs"
  by (auto simp: slice_to_def dest: in_set_takeD)

lemma planned_known: "set (planned_tools dtext be m) \<subseteq> set known_tools"
proof -
  have "set (planned_tools dtext be m) \<subseteq> set (tool_plan_for_text dtext)"
    using set_slice_to [of "filter (\<lambda>t. t \<noteq> str ''llm'') (tool_plan_for_text dtext)" m]
      set_slice_to [of "tool_plan_for_text dtext" m]
    by (auto simp: planned_tools_def Let_def)
  then show ?thesis using tool_plan_known by blast
qed

lemma cumulative_after_Suc:
  "cumulative_after X dtext sid be (t # rest) (Suc k)
     = step_candidates X t dtext sid be @ cumulative_after X dtext sid be rest k"
  by (simp add: cumulative_after_def)

lemma cumulative_after_0 [simp]: "cumulative_after X dtext sid be plan 0 = []"
  by (simp add: cumulative_after_def)

lemma cumulative_after_Nil [simp]: "cumulative_after X dtext sid be [] k = []"
  by (simp add: cumulative_after_def)

lemma score_bounds: "0 \<le> completeness_score s"
  by (simp add: completeness_score_def)

lemma run_steps_char:
  assumes "set plan \<subseteq> set known_tools"
  shows "\<exists>n. n \<le> length plan \<and> (plan \<noteq> [] \<longrightarrow> 1 \<le> n)
     \<and> run_steps X dtext sid be thr plan st
         = Inr \<lparr> candidates = candidates st @ cumulative_after X dtext sid be plan n,
                 steps = steps st @ take n plan \<rparr>
     \<and> (\<forall>k. 1 \<le> k \<and> k < n \<longrightarrow>
          completeness_score (merge_candidates
            (candidates st @ cumulative_after X dtext sid be plan k)) < thr)
     \<and> (n < length plan \<longrightarrow>
          thr \<le> completeness_score (merge_candidates
            (candidates st @ cumulative_after X dtext sid be plan n)))"
  using assms
proof (induction plan arbitrary: st)
  case Nil
  show ?case by (rule exI [of _ 0]) simp
next
  case (Cons t rest)
  from Cons.prems have kt: "t \<in> set known_tools" and kr: "set rest \<subseteq> set known_tools"
    by auto
  from run_tool_known [OF kt] obtain new where rt: "run_tool X t dtext sid be = Inr new"
    by blast
  define sc where "sc = step_candidates X t dtext sid be"
  have sc: "sc = map (\<lambda>c. validate_candidate (normalize_candidate c)) new"
    by (simp add: sc_def step_candidates_def rt)
  define st1 where "st1 = \<lparr> candidates = candidates st @ sc, steps = steps st @ [t] \<rparr>"
  have one: "cumulative_after X dtext sid be (t # rest) (Suc 0) = sc"
    by (simp add: cumulative_after_Suc sc_def)
  show ?case
  proof (cases "thr \<le> completeness_score (merge_candidates (candidates st1))")
    case True
    then have r: "run_steps X dtext sid be thr (t # rest) st = Inr st1"
      by (simp add: rt Let_def st1_def sc)
    show ?thesis
      by (rule exI [of _ "Suc 0"]) (use True r one in \<open>simp add: st1_def\<close>)
  next
    case False
    then have r: "run_steps X dtext sid be thr (t # rest) st
        = run_steps X dtext sid be thr rest st1"
      by (simp add: rt Let_def st1_def sc)
    from Cons.IH [OF kr, of st1] obtain n where n: "n \<le> length rest"
      and n1: "rest \<noteq> [] \<longrightarrow> 1 \<le> n"
      and res: "run_steps X dtext sid be thr rest st1
         = Inr \<lparr> candidates = candidates st1 @ cumulative_after X dtext sid be rest n,
                 steps = steps st1 @ take n rest \<rparr>"
      and below: "\<forall>k. 1 \<le> k \<and> k < n \<longrightarrow>
          completeness_score (merge_candidates
            (candidates st1 @ cumulative_after X dtext sid be rest k)) < thr"
      and stop: "n < length rest \<longrightarrow>
          thr \<le> completeness_score (merge_candidates
            (candidates st1 @ cumulative_after X dtext sid be rest n))"
      by blast
    have c1: "\<And>k. candidates st @ cumulative_after X dtext sid be (t # rest) (Suc k)
        = candidates st1 @ cumulative_after X dtext sid be rest k"
      by (simp add: cumulative_after_Suc st1_def sc_def)
    have b: "\<forall>k. 1 \<le> k \<and> k < Suc n \<longrightarrow>
          completeness_score (merge_candidates
            (candidates st @ cumulative_after X dtext sid be (t # rest) k)) < thr"
    proof (intro allI impI)
      fix k assume k: "1 \<le> k \<and> k < Suc n"
      then obtain j where j: "k = Suc j" by (cases k) auto
      show "completeness_score (merge_candidates
            (candidates st @ cumulative_after X dtext sid be (t # rest) k)) < thr"
      proof (cases j)
        case 0
        then show ?thesis using False j by (simp add: c1)
      next
        case (Suc i)
        then have "1 \<le> j \<and> j < n" using k j by simp
        then show ?thesis using below j by (simp add: c1)
      qed
    qed
    show ?thesis
      by (rule exI [of _ "Suc n"]) (use n r res b stop in \<open>simp add: c1 st1_def\<close>)
  qed
qed


lemma process_document_char:
  "\<exists>n. n \<le> length (planned_tools dtext be m)
     \<and> (planned_tools dtext be m \<noteq> [] \<longrightarrow> 1 \<le> n)
     \<and> process_document X dtext sid thr m be
         = Inr \<lparr> final = merge_candidates
                           (cumulative_after X dtext sid be (planned_tools dtext be m) n),
                 steps_run = take n (planned_tools dtext be m),
                 cumulative = cumulative_after X dtext sid be (planned_tools dtext be m) n \<rparr>
     \<and> (\<forall>k. 1 \<le> k \<and> k < n \<longrightarrow> score_after X dtext sid be (planned_tools dtext be m) k < thr)
     \<and> (n < length (planned_tools dtext be m) \<longrightarrow>
          thr \<le> score_after X dtext sid be (planned_tools dtext be m) n)"
proof -
  from run_steps_char [where plan = "planned_tools dtext be m" and dtext = dtext and be = be
      and X = X and sid = sid and thr = thr and st = "\<lparr> candidates = [], steps = [] \<rparr>",
      OF planned_known]
  obtain n where "n \<le> length (planned_tools dtext be m)"
    "planned_tools dtext be m \<noteq> [] \<longrightarrow> 1 \<le> n"
    "run_steps X dtext sid be thr (planned_tools dtext be m) \<lparr> candidates = [], steps = [] \<rparr>
       = Inr \<lparr> candidates = cumulative_after X dtext sid be (planned_tools dtext be m) n,
               steps = take n (planned_tools dtext be m) \<rparr>"
    "\<forall>k. 1 \<le> k \<and> k < n \<longrightarrow> score_after X dtext sid be (planned_tools dtext be m) k < thr"
    "n < length (planned_tools dtext be m) \<longrightarrow>
          thr \<le> score_after X dtext sid be (planned_tools dtext be m) n"
    unfolding score_after_def by auto
  then show ?thesis
    by (intro exI [of _ n]) (simp add: process_document_def Let_def)
qed

lemma cumulative_prefix:
  assumes "j \<le> k"
  shows "\<exists>ys. cumulative_after X dtext sid be plan k = cumulative_after X dtext sid be plan j @ ys"
proof -
  have "take k plan = take j plan @ drop j (take k plan)"
    using assms by (metis append_take_drop_id min.absorb1 take_take)
  then have "cumulative_after X dtext sid be plan k
     = cumulative_after X dtext sid be plan j
       @ concat (map (\<lambda>t. step_candidates X t dtext sid be) (drop j (take k plan)))"
    unfolding cumulative_after_def by (metis concat_append map_append)
  then show ?thesis by blast
qed

lemma score_lt_one_iff: "completeness_score s < 1 \<longleftrightarrow> filled_count s < 6"
  by (simp add: completeness_score_def CORE_FIELDS_def)

text \<open>
  C2, amended. Processing a document never fails, and the steps that run are a prefix of
  the planned tools; write \<open>n\<close> for their number. The cumulative list is the one
  accumulated through step \<open>n\<close>, and the result is its merge. The first step runs if
  and only if the plan is not empty. For every \<open>k\<close> from 1 on, step \<open>k + 1\<close> runs if
  and only if step \<open>k\<close> ran, \<open>k\<close> is less than the length of the plan, and the
  completeness score of the merge of the candidates accumulated through step \<open>k\<close> is
  strictly below the threshold. So with a threshold of 0.0 (or less) exactly one step
  runs whenever the plan is not empty, and none when it is empty; when the score stays
  below the threshold after every step, all the steps of the plan run, in particular the
  three steps of a three-tool plan at threshold 1.0 when no merge fills all six core
  fields. The cumulative list after an earlier step is a prefix of the list after every
  later step.
\<close>

theorem orchestration_loop_steps:
  "\<exists>r. process_document X dtext sid thr max_steps be = Inr r
     \<and> (let plan = planned_tools dtext be max_steps; n = length (steps_run r) in
        steps_run r = take n plan \<and> n \<le> length plan
        \<and> cumulative r = cumulative_after X dtext sid be plan n
        \<and> final r = merge_candidates (cumulative r)
        \<and> (1 \<le> n \<longleftrightarrow> plan \<noteq> [])
        \<and> (\<forall>k\<ge>1. k + 1 \<le> n \<longleftrightarrow>
              k \<le> n \<and> k < length plan \<and> score_after X dtext sid be plan k < thr)
        \<and> (thr \<le> 0 \<longrightarrow> n = min 1 (length plan))
        \<and> ((\<forall>k\<in>{1..length plan}. score_after X dtext sid be plan k < thr) \<longrightarrow> n = length plan)
        \<and> (thr = 1 \<and> length plan = 3
             \<and> (\<forall>k\<in>{1..3}. filled_count (merge_candidates (cumulative_after X dtext sid be plan k)) < 6)
            \<longrightarrow> n = 3)
        \<and> (\<forall>j k. j \<le> k \<longrightarrow>
              (\<exists>ys. cumulative_after X dtext sid be plan k
                      = cumulative_after X dtext sid be plan j @ ys)))"
proof -
  define plan where "plan = planned_tools dtext be max_steps"
  from process_document_char [where dtext = dtext and be = be and m = max_steps and X = X
      and sid = sid and thr = thr]
  obtain n where n: "n \<le> length plan" and n1: "plan \<noteq> [] \<longrightarrow> 1 \<le> n"
    and res: "process_document X dtext sid thr max_steps be
         = Inr \<lparr> final = merge_candidates (cumulative_after X dtext sid be plan n),
                 steps_run = take n plan,
                 cumulative = cumulative_after X dtext sid be plan n \<rparr>"
    and below: "\<forall>k. 1 \<le> k \<and> k < n \<longrightarrow> score_after X dtext sid be plan k < thr"
    and stop: "n < length plan \<longrightarrow> thr \<le> score_after X dtext sid be plan n"
    unfolding plan_def by blast
  let ?r = "\<lparr> final = merge_candidates (cumulative_after X dtext sid be plan n),
                 steps_run = take n plan,
                 cumulative = cumulative_after X dtext sid be plan n \<rparr>"
  have len: "length (steps_run ?r) = n" using n by simp
  have a: "1 \<le> n \<longleftrightarrow> plan \<noteq> []" using n n1 by auto
  have b: "\<forall>k\<ge>1. k + 1 \<le> n \<longleftrightarrow>
              k \<le> n \<and> k < length plan \<and> score_after X dtext sid be plan k < thr"
  proof (intro allI impI iffI)
    fix k :: nat assume k: "1 \<le> k" and "k + 1 \<le> n"
    then show "k \<le> n \<and> k < length plan \<and> score_after X dtext sid be plan k < thr"
      using below n by auto
  next
    fix k :: nat assume k: "1 \<le> k"
      and h: "k \<le> n \<and> k < length plan \<and> score_after X dtext sid be plan k < thr"
    show "k + 1 \<le> n"
    proof (rule ccontr)
      assume "\<not> k + 1 \<le> n"
      then have "n = k" using h by simp
      then show False using stop h by simp
    qed
  qed
  have c: "thr \<le> 0 \<longrightarrow> n = min 1 (length plan)"
  proof
    assume t: "thr \<le> 0"
    show "n = min 1 (length plan)"
    proof (cases "plan = []")
      case True
      then show ?thesis using n by simp
    next
      case False
      then have "1 \<le> n" using n1 by simp
      moreover have "\<not> 1 < n"
      proof
        assume "1 < n"
        then have "score_after X dtext sid be plan 1 < thr" using below by simp
        then show False using t score_bounds [of "merge_candidates (cumulative_after X dtext sid be plan 1)"]
          by (simp add: score_after_def)
      qed
      ultimately have "n = 1" by simp
      then show ?thesis using n by simp
    qed
  qed
  have d: "(\<forall>k\<in>{1..length plan}. score_after X dtext sid be plan k < thr) \<longrightarrow> n = length plan"
  proof
    assume all: "\<forall>k\<in>{1..length plan}. score_after X dtext sid be plan k < thr"
    show "n = length plan"
    proof (rule ccontr)
      assume "n \<noteq> length plan"
      then have lt: "n < length plan" using n by simp
      then have "plan \<noteq> []" by auto
      then have "1 \<le> n" using n1 by simp
      then have "score_after X dtext sid be plan n < thr" using all lt by simp
      then show False using stop lt by simp
    qed
  qed
  have e: "thr = 1 \<and> length plan = 3
             \<and> (\<forall>k\<in>{1..3}. filled_count (merge_candidates (cumulative_after X dtext sid be plan k)) < 6)
            \<longrightarrow> n = 3"
  proof
    assume h: "thr = 1 \<and> length plan = 3
             \<and> (\<forall>k\<in>{1..3}. filled_count (merge_candidates (cumulative_after X dtext sid be plan k)) < 6)"
    then have "\<forall>k\<in>{1..length plan}. score_after X dtext sid be plan k < thr"
      by (simp add: score_after_def score_lt_one_iff)
    then show "n = 3" using d h by simp
  qed
  have g: "\<forall>j k. j \<le> k \<longrightarrow>
              (\<exists>ys. cumulative_after X dtext sid be plan k
                      = cumulative_after X dtext sid be plan j @ ys)"
    using cumulative_prefix by blast
  have "process_document X dtext sid thr max_steps be = Inr ?r
     \<and> (let plan = planned_tools dtext be max_steps; n = length (steps_run ?r) in
        steps_run ?r = take n plan \<and> n \<le> length plan
        \<and> cumulative ?r = cumulative_after X dtext sid be plan n
        \<and> final ?r = merge_candidates (cumulative ?r)
        \<and> (1 \<le> n \<longleftrightarrow> plan \<noteq> [])
        \<and> (\<forall>k\<ge>1. k + 1 \<le> n \<longleftrightarrow>
              k \<le> n \<and> k < length plan \<and> score_after X dtext sid be plan k < thr)
        \<and> (thr \<le> 0 \<longrightarrow> n = min 1 (length plan))
        \<and> ((\<forall>k\<in>{1..length plan}. score_after X dtext sid be plan k < thr) \<longrightarrow> n = length plan)
        \<and> (thr = 1 \<and> length plan = 3
             \<and> (\<forall>k\<in>{1..3}. filled_count (merge_candidates (cumulative_after X dtext sid be plan k)) < 6)
            \<longrightarrow> n = 3)
        \<and> (\<forall>j k. j \<le> k \<longrightarrow>
              (\<exists>ys. cumulative_after X dtext sid be plan k
                      = cumulative_after X dtext sid be plan j @ ys)))"
    unfolding Let_def plan_def [symmetric] len
    using res n a b c d e g by (intro conjI) simp_all
  then show ?thesis by (rule exI [of _ ?r])
qed

lemma plan_generic_none:
  "planned_tools (str ''speed: 2'') (str ''none'') 4 = [str ''key_value'', str ''regex_generic'']"
  by code_simp

lemma plan_generic_openai:
  "planned_tools (str ''speed: 2'') (str ''openai'') 4
     = [str ''key_value'', str ''regex_generic'', str ''llm'']"
  by code_simp


lemma run_tool_nothing:
  "run_tool extractors_nothing (str ''key_value'') dtext sid be
     = Inr [from_key_values [] sid (str ''key_value'')]"
  "run_tool extractors_nothing (str ''llm'') dtext sid be
     = Inr [from_flat_dict [] sid (str ''llm'')]"
  "run_tool extractors_nothing (str ''regex_generic'') dtext sid be
     = Inr [from_flat_dict (map (\<lambda>w. (w, PNone))
              (map str [''dimensions'', ''payload'', ''speed'', ''weight'', ''turning radius'']))
            sid (str ''regex_generic'')]"
  by (simp_all add: run_tool_def extractors_nothing_def str_def)

lemma fields_nothing_kv:
  "fields_c (normalize_candidate (from_key_values [] (str ''doc.txt'') (str ''key_value'')))
     = [(str ''_kv'', PDict [])]"
  by code_simp

lemma fields_nothing_llm:
  "fields_c (normalize_candidate (from_flat_dict [] (str ''doc.txt'') (str ''llm''))) = []"
  by code_simp

lemma fields_nothing_generic:
  "fields_c (normalize_candidate (from_flat_dict (map (\<lambda>w. (w, PNone))
              (map str [''dimensions'', ''payload'', ''speed'', ''weight'', ''turning radius'']))
            (str ''doc.txt'') (str ''regex_generic'')))
     = map (\<lambda>w. (w, PNone))
         (map str [''dimensions'', ''payload'', ''speed'', ''weight'', ''turning radius''])"
  by code_simp

lemma in_cumulative_after:
  "c \<in> set (cumulative_after X dtext sid be plan k)
     \<Longrightarrow> \<exists>t\<in>set plan. c \<in> set (step_candidates X t dtext sid be)"
  by (auto simp: cumulative_after_def dest: in_set_takeD)

lemma filled_count_zero:
  assumes "\<forall>c\<in>set cs. \<forall>f\<in>set data_fields. \<not> proposes c f"
  shows "filled_count (merge_candidates cs) = 0"
proof -
  have "\<And>f. f \<in> set data_fields \<Longrightarrow> getattr (merge_candidates cs) f = PNone"
    using assms populated_iff by blast
  then have "getattr (merge_candidates cs) (str ''device_name'') = PNone"
    "getattr (merge_candidates cs) (str ''length_mm'') = PNone"
    "getattr (merge_candidates cs) (str ''width_mm'') = PNone"
    "getattr (merge_candidates cs) (str ''height_mm'') = PNone"
    "getattr (merge_candidates cs) (str ''payload_kg'') = PNone"
    "getattr (merge_candidates cs) (str ''speed_m_s'') = PNone"
    by (simp_all add: data_fields_def)
  then show ?thesis by (simp add: filled_count_def CORE_FIELDS_def counts_filled_def)
qed

lemma nothing_proposed:
  assumes "c \<in> set (cumulative_after extractors_nothing dtext (str ''doc.txt'') be
      [str ''key_value'', str ''regex_generic'', str ''llm''] k)"
    and "f \<in> set data_fields"
  shows "\<not> proposes c f"
proof -
  from in_cumulative_after [OF assms(1)]
  have "c = validate_candidate (normalize_candidate (from_key_values [] (str ''doc.txt'') (str ''key_value'')))
      \<or> c = validate_candidate (normalize_candidate (from_flat_dict (map (\<lambda>w. (w, PNone))
              (map str [''dimensions'', ''payload'', ''speed'', ''weight'', ''turning radius'']))
            (str ''doc.txt'') (str ''regex_generic'')))
      \<or> c = validate_candidate (normalize_candidate (from_flat_dict [] (str ''doc.txt'') (str ''llm'')))"
    by (auto simp: step_candidates_def run_tool_nothing)
  then have "fields_c c = [(str ''_kv'', PDict [])]
      \<or> fields_c c = map (\<lambda>w. (w, PNone))
         (map str [''dimensions'', ''payload'', ''speed'', ''weight'', ''turning radius''])
      \<or> fields_c c = []"
    using fields_nothing_kv fields_nothing_generic fields_nothing_llm by auto
  then show ?thesis
    using assms(2) by (auto simp: proposes_def supplied_def data_fields_def str_def)
qed

theorem orchestration_loop_steps_witness:
  "(0::real) \<le> 0
   \<and> (\<exists>r. process_document extractors_nothing (str ''speed: 2'') (str ''doc.txt'') 0 4 (str ''none'')
             = Inr r \<and> steps_run r = [str ''key_value''])
   \<and> (\<exists>r. process_document extractors_nothing (str ''speed: 2'') (str ''doc.txt'') 1 4 (str ''openai'')
             = Inr r \<and> steps_run r = [str ''key_value'', str ''regex_generic'', str ''llm''])"
proof -
  from orchestration_loop_steps [where X = extractors_nothing and dtext = "str ''speed: 2''"
      and sid = "str ''doc.txt''" and thr = 0 and max_steps = 4 and be = "str ''none''"]
  obtain r where r: "process_document extractors_nothing (str ''speed: 2'') (str ''doc.txt'') 0 4
        (str ''none'') = Inr r"
    and t: "steps_run r = take (length (steps_run r)) [str ''key_value'', str ''regex_generic'']"
    and n: "(0::real) \<le> 0 \<longrightarrow> length (steps_run r) = min 1 (length [str ''key_value'', str ''regex_generic''])"
    unfolding Let_def plan_generic_none by blast
  from n have "length (steps_run r) = 1" by simp
  with t have a: "steps_run r = [str ''key_value'']" by simp
  let ?plan = "[str ''key_value'', str ''regex_generic'', str ''llm'']"
  from orchestration_loop_steps [where X = extractors_nothing and dtext = "str ''speed: 2''"
      and sid = "str ''doc.txt''" and thr = 1 and max_steps = 4 and be = "str ''openai''"]
  obtain q where q: "process_document extractors_nothing (str ''speed: 2'') (str ''doc.txt'') 1 4
        (str ''openai'') = Inr q"
    and tq: "steps_run q = take (length (steps_run q)) ?plan"
    and nq: "(1::real) = 1 \<and> length ?plan = 3
             \<and> (\<forall>k\<in>{1..3}. filled_count (merge_candidates (cumulative_after extractors_nothing
                   (str ''speed: 2'') (str ''doc.txt'') (str ''openai'') ?plan k)) < 6)
            \<longrightarrow> length (steps_run q) = 3"
    unfolding Let_def plan_generic_openai by blast
  have "\<forall>k\<in>{1..3}. filled_count (merge_candidates (cumulative_after extractors_nothing
                   (str ''speed: 2'') (str ''doc.txt'') (str ''openai'') ?plan k)) < 6"
    using nothing_proposed by (simp add: filled_count_zero)
  with nq have "length (steps_run q) = 3" by simp
  with tq have b: "steps_run q = ?plan" by simp
  from r a q b show ?thesis by simp
qed

text \<open>
  With a step budget of 0 the plan is empty: at threshold 0.0 no step runs.
\<close>

theorem orchestration_loop_steps_counterexample:
  "process_document extractors_nothing (str ''speed: 2'') (str ''doc.txt'') 0 0 (str ''none'')
     = Inr \<lparr> final = AGVSpec_new, steps_run = [], cumulative = [] \<rparr>"
  by (simp add: process_document_def planned_tools_def slice_to_def merge_candidates_def)

subsection \<open>Documents without candidates\<close>





subsection \<open>Input files\<close>

lemma sorted_names_props:
  "sorted (map (map cp) (sorted_names ns))" "set (sorted_names ns) = set ns"
  "length (sorted_names ns) = length ns"
  by (simp_all add: sorted_names_def)

text \<open>
  C10. For a directory, \<open>iter_inputs\<close> yields first the entries that match
  \<open>*.pdf\<close>, all of them and in sorted name order, and then, in sorted name order, exactly
  those entries matching \<open>*.txt\<close> whose stem is not the stem of a matching PDF: a text
  file that shares its stem with a PDF is left out. A regular file is yielded as it is. A
  path that is neither a regular file nor a directory raises FileNotFoundError.
\<close>

theorem iter_inputs_directory:
  "(fs p = Some (Dir names) \<longrightarrow>
      (\<exists>pdfs txts. iter_inputs fs p = Inr (map (joinpath p) (pdfs @ txts))
         \<and> sorted (map (map cp) pdfs)
         \<and> set pdfs = {n \<in> set names. ends_with n (str ''.pdf'')}
         \<and> length pdfs = length (filter (\<lambda>n. ends_with n (str ''.pdf'')) names)
         \<and> sorted (map (map cp) txts)
         \<and> set txts = {n \<in> set names. ends_with n (str ''.txt'')
                          \<and> stem n \<notin> stem ` {m \<in> set names. ends_with m (str ''.pdf'')}}))
   \<and> (fs p = Some File \<longrightarrow> iter_inputs fs p = Inr [p])
   \<and> (fs p = None \<or> fs p = Some Special \<longrightarrow> iter_inputs fs p = Inl (FileNotFoundError p))"
proof (intro conjI impI)
  assume d: "fs p = Some (Dir names)"
  let ?pdfs = "sorted_names (glob_suffix names (str ''.pdf''))"
  let ?txts = "filter (\<lambda>f. stem f \<notin> set (map stem ?pdfs))
                 (sorted_names (glob_suffix names (str ''.txt'')))"
  have r: "iter_inputs fs p = Inr (map (joinpath p) (?pdfs @ ?txts))"
    using d by (simp add: iter_inputs_def Let_def)
  have 1: "sorted (map (map cp) ?pdfs)" by (rule sorted_names_props)
  have 2: "set ?pdfs = {n \<in> set names. ends_with n (str ''.pdf'')}"
    by (auto simp: sorted_names_props glob_suffix_def)
  have 3: "length ?pdfs = length (filter (\<lambda>n. ends_with n (str ''.pdf'')) names)"
    by (simp add: sorted_names_props glob_suffix_def)
  have 4: "sorted (map (map cp) ?txts)"
    by (rule sorted_filter) (rule sorted_names_props)
  have 5: "set ?txts = {n \<in> set names. ends_with n (str ''.txt'')
                          \<and> stem n \<notin> stem ` {m \<in> set names. ends_with m (str ''.pdf'')}}"
    using 2 by (auto simp: sorted_names_props glob_suffix_def)
  show "\<exists>pdfs txts. iter_inputs fs p = Inr (map (joinpath p) (pdfs @ txts))
         \<and> sorted (map (map cp) pdfs)
         \<and> set pdfs = {n \<in> set names. ends_with n (str ''.pdf'')}
         \<and> length pdfs = length (filter (\<lambda>n. ends_with n (str ''.pdf'')) names)
         \<and> sorted (map (map cp) txts)
         \<and> set txts = {n \<in> set names. ends_with n (str ''.txt'')
                          \<and> stem n \<notin> stem ` {m \<in> set names. ends_with m (str ''.pdf'')}}"
    using r 1 2 3 4 5 by blast
next
  assume "fs p = Some File"
  then show "iter_inputs fs p = Inr [p]" by (simp add: iter_inputs_def)
next
  assume "fs p = None \<or> fs p = Some Special"
  then show "iter_inputs fs p = Inl (FileNotFoundError p)"
    by (auto simp: iter_inputs_def)
qed

theorem iter_inputs_directory_witness:
  "fs_example (str ''docs'')
     = Some (Dir [str ''b.pdf'', str ''a.txt'', str ''a.pdf'', str ''c.txt'', str ''notes.md''])
   \<and> iter_inputs fs_example (str ''docs'')
       = Inr [str ''docs/a.pdf'', str ''docs/b.pdf'', str ''docs/c.txt'']
   \<and> (\<exists>pdfs txts. iter_inputs fs_example (str ''docs'')
          = Inr (map (joinpath (str ''docs'')) (pdfs @ txts)) \<and> sorted (map (map cp) pdfs))
   \<and> fs_example (str ''one.pdf'') = Some File
   \<and> iter_inputs fs_example (str ''one.pdf'') = Inr [str ''one.pdf'']
   \<and> fs_example (str ''missing'') = None
   \<and> iter_inputs fs_example (str ''missing'') = Inl (FileNotFoundError (str ''missing''))"
proof -
  have d: "fs_example (str ''docs'')
     = Some (Dir [str ''b.pdf'', str ''a.txt'', str ''a.pdf'', str ''c.txt'', str ''notes.md''])"
    by (simp add: fs_example_def)
  have f: "fs_example (str ''one.pdf'') = Some File"
    by (simp add: fs_example_def str_def)
  have m: "fs_example (str ''missing'') = None"
    by (simp add: fs_example_def str_def)
  have e: "iter_inputs fs_example (str ''docs'')
       = Inr [str ''docs/a.pdf'', str ''docs/b.pdf'', str ''docs/c.txt'']"
    by code_simp
  note t = iter_inputs_directory [of fs_example]
  from t [of "str ''docs''"] d
  have 1: "\<exists>pdfs txts. iter_inputs fs_example (str ''docs'')
          = Inr (map (joinpath (str ''docs'')) (pdfs @ txts)) \<and> sorted (map (map cp) pdfs)"
    by blast
  from t [of "str ''one.pdf''"] f
  have 2: "iter_inputs fs_example (str ''one.pdf'') = Inr [str ''one.pdf'']" by blast
  from t [of "str ''missing''"] m
  have 3: "iter_inputs fs_example (str ''missing'') = Inl (FileNotFoundError (str ''missing''))"
    by blast
  from d e 1 f 2 m 3 show ?thesis by blast
qed

end
